theory Spec2Isabelle
  imports Complex_Main "HOL-Library.AList"
begin

section \<open>The drain log-template miner (pkg/loggerinfo/drain/drain.go)\<close>

text \<open>
  A shallow embedding of \<^verbatim>\<open>drain.go\<close>. Structs are records, the prefix tree is a
  datatype, every panic of the Go code is a value of \<open>panic\<close>, and the mutation of the
  engine (tree, cache, counter) is explicit state passing. Go strings are byte
  sequences: \<open>string\<close> (a list of 8-bit characters). Go's \<open>int\<close> and \<open>int64\<close> are
  modelled by \<open>int\<close>: the only arithmetic of the file is \<open>ts - ts % timeResolution\<close>,
  whose result lies between 0 and \<open>ts\<close>, and increments of counters by one.
  Similarity scores are \<open>float64\<close> quotients of two small integers; they are modelled
  by exact rationals, and the quotient \<open>0 / 0\<close> (Go's NaN) by \<open>None\<close>.
\<close>

subsection \<open>Panics\<close>

datatype panic =
    PanicDepth             \<comment> \<open>\<open>New\<close>: depth argument must be at least 3\<close>
  | PanicSeqLength         \<comment> \<open>\<open>getSeqDistance\<close>, \<open>createTemplate\<close>: seq1 seq2 be of same length\<close>
  | PanicNilCache          \<comment> \<open>a method call on the nil LRU that \<open>NewLRU\<close> returns for a size below 1\<close>
  | PanicNilNode           \<comment> \<open>\<open>addSeqToPrefixTree\<close>: the wildcard child read from the map is nil\<close>
  | PanicCandidateIndex    \<comment> \<open>\<open>treeSearch\<close>: \<open>curNode.clusterIDs[0]\<close> on an empty list\<close>
  | PanicVolumeIndex       \<comment> \<open>\<open>Volume.Add\<close>: \<open>x.Values[0]\<close> on an empty list\<close>

subsection \<open>The Go standard library functions the file calls\<close>

text \<open>
  \<open>utf8.DecodeRuneInString\<close>: the rune at the start of a byte string and its width.
  An invalid or short encoding is \<open>RuneError\<close> of width 1.
\<close>

definition RuneError :: nat where
  "RuneError = 0xFFFD"

definition contByte :: "nat \<Rightarrow> bool" where
  "contByte b = (0x80 \<le> b \<and> b \<le> 0xBF)"

fun decodeRune :: "nat list \<Rightarrow> nat \<times> nat" where
  "decodeRune [] = (RuneError, 0)"
| "decodeRune (s0 # rest) =
    (if s0 < 0x80 then (s0, 1)
     else if s0 < 0xC2 \<or> 0xF4 < s0 then (RuneError, 1)
     else
       let sz = (if s0 < 0xE0 then 2 else if s0 < 0xF0 then 3 else (4::nat));
           lo = (if s0 = 0xE0 then 0xA0 else if s0 = 0xF0 then 0x90 else 0x80);
           hi = (if s0 = 0xED then 0x9F else if s0 = 0xF4 then 0x8F else 0xBF)
       in if length (s0 # rest) < sz then (RuneError, 1)
          else if rest ! 0 < lo \<or> hi < rest ! 0 then (RuneError, 1)
          else if sz \<le> 2 then ((s0 mod 32) * 64 + rest ! 0 mod 64, 2)
          else if \<not> contByte (rest ! 1) then (RuneError, 1)
          else if sz \<le> 3 then
            ((s0 mod 16) * 4096 + (rest ! 0 mod 64) * 64 + rest ! 1 mod 64, 3)
          else if \<not> contByte (rest ! 2) then (RuneError, 1)
          else ((s0 mod 8) * 262144 + (rest ! 0 mod 64) * 4096
                  + (rest ! 1 mod 64) * 64 + rest ! 2 mod 64, 4))"

definition runeAt :: "string \<Rightarrow> nat" where
  "runeAt s = fst (decodeRune (map of_char s))"

definition widthAt :: "string \<Rightarrow> nat" where
  "widthAt s = max 1 (snd (decodeRune (map of_char s)))"

text \<open>
  \<open>utf8.DecodeLastRuneInString\<close>: the scan goes back over at most three continuation
  bytes to a byte that can start a rune, and the rune decoded there counts only when
  it ends where the string ends.
\<close>

function scanBack :: "nat list \<Rightarrow> int \<Rightarrow> int \<Rightarrow> int" where
  "scanBack s low start =
    (if low \<le> start
     then (if \<not> contByte (s ! nat start) then start else scanBack s low (start - 1))
     else start)"
  by pat_completeness auto
termination
  by (relation "measure (\<lambda>(s, low, start). nat (start + 1 - low))") auto

declare scanBack.simps [simp del]

definition decodeLastRune :: "nat list \<Rightarrow> nat \<times> nat" where
  "decodeLastRune s =
    (let n = int (length s) in
     if n = 0 then (RuneError, 0)
     else if s ! nat (n - 1) < 0x80 then (s ! nat (n - 1), 1)
     else
       let low = (if n - 4 < 0 then 0 else n - 4);
           start0 = scanBack s low (n - 2);
           start = (if start0 < 0 then 0 else start0);
           r = decodeRune (drop (nat start) s)
       in if start + int (snd r) \<noteq> n then (RuneError, 1) else r)"

text \<open>\<open>unicode.IsSpace\<close>: Latin-1 spaces and the White\_Space property.\<close>

definition IsSpace :: "nat \<Rightarrow> bool" where
  "IsSpace r =
    (r \<in> set [0x09, 0x0A, 0x0B, 0x0C, 0x0D, 0x20, 0x85, 0xA0, 0x1680,
               0x2028, 0x2029, 0x202F, 0x205F, 0x3000]
     \<or> (0x2000 \<le> r \<and> r \<le> 0x200A))"

function TrimLeft :: "string \<Rightarrow> string" where
  "TrimLeft s =
    (if s \<noteq> [] \<and> IsSpace (runeAt s) then TrimLeft (drop (widthAt s) s) else s)"
  by pat_completeness auto
termination
  by (relation "measure length") (auto simp: widthAt_def)

declare TrimLeft.simps [simp del]

function TrimRight :: "string \<Rightarrow> string" where
  "TrimRight s =
    (if s \<noteq> [] \<and> IsSpace (fst (decodeLastRune (map of_char s)))
     then TrimRight (take (length s - max 1 (snd (decodeLastRune (map of_char s)))) s)
     else s)"
  by pat_completeness auto
termination
  by (relation "measure length") auto

declare TrimRight.simps [simp del]

text \<open>
  \<open>strings.TrimSpace\<close>: its ASCII fast path and its fallback agree with trimming
  the spaces on the left, then on the right.
\<close>

definition TrimSpace :: "string \<Rightarrow> string" where
  "TrimSpace s = TrimRight (TrimLeft s)"

text \<open>
  \<open>strings.Replace(s, old, new, -1)\<close>: every non-overlapping occurrence of \<open>old\<close>,
  from the left; an empty \<open>old\<close> matches before every rune and at the end.
\<close>

definition HasPrefix :: "string \<Rightarrow> string \<Rightarrow> bool" where
  "HasPrefix s p = (take (length p) s = p)"

function replaceAll :: "string \<Rightarrow> string \<Rightarrow> string \<Rightarrow> string" where
  "replaceAll s old new =
    (if s = [] \<or> old = [] then s
     else if HasPrefix s old then new @ replaceAll (drop (length old) s) old new
     else hd s # replaceAll (tl s) old new)"
  by pat_completeness auto
termination
  by (relation "measure (\<lambda>(s, old, new). length s)") auto

declare replaceAll.simps [simp del]

function afterEachRune :: "string \<Rightarrow> string \<Rightarrow> string" where
  "afterEachRune s new =
    (if s = [] then []
     else take (widthAt s) s @ new @ afterEachRune (drop (widthAt s) s) new)"
  by pat_completeness auto
termination
  by (relation "measure (\<lambda>(s, new). length s)") (auto simp: widthAt_def)

declare afterEachRune.simps [simp del]

definition Replace :: "string \<Rightarrow> string \<Rightarrow> string \<Rightarrow> string" where
  "Replace s old new =
    (if old = new then s
     else if old = [] then new @ afterEachRune s new
     else replaceAll s old new)"

text \<open>\<open>strings.Split(s, sep)\<close> for a separator of one byte.\<close>

fun Split :: "string \<Rightarrow> char \<Rightarrow> string list" where
  "Split [] sep = [[]]"
| "Split (c # cs) sep =
    (if c = sep then [] # Split cs sep
     else (case Split cs sep of [] \<Rightarrow> [[c]] | t # ts \<Rightarrow> (c # t) # ts))"

text \<open>\<open>strconv.Itoa\<close> on a length.\<close>

definition digit :: "nat \<Rightarrow> char" where
  "digit d = char_of (48 + d)"

fun Itoa :: "nat \<Rightarrow> string" where
  "Itoa n = (if n < 10 then [digit n] else Itoa (n div 10) @ [digit (n mod 10)])"

declare Itoa.simps [simp del]

text \<open>
  \<open>sort.Search(n, f)\<close>: the binary search of the standard library, whatever \<open>f\<close> is.
\<close>

function Search_loop :: "(nat \<Rightarrow> bool) \<Rightarrow> nat \<Rightarrow> nat \<Rightarrow> nat" where
  "Search_loop f i j =
    (if i < j
     then (let h = (i + j) div 2 in
           if \<not> f h then Search_loop f (h + 1) j else Search_loop f i h)
     else i)"
  by pat_completeness auto
termination
  by (relation "measure (\<lambda>(f, i, j). j - i)") auto

declare Search_loop.simps [simp del]

definition Search :: "nat \<Rightarrow> (nat \<Rightarrow> bool) \<Rightarrow> nat" where
  "Search n f = Search_loop f 0 n"

text \<open>Go's \<open>%\<close> on integers: the remainder has the sign of the dividend.\<close>

definition goRem :: "int \<Rightarrow> int \<Rightarrow> int" where
  "goRem a b = sgn a * (\<bar>a\<bar> mod \<bar>b\<bar>)"

subsection \<open>Configuration and clusters\<close>

record Config =
  maxNodeDepth :: int
  LogClusterDepth :: int
  SimTh :: rat
  MaxChildren :: int
  ExtraDelimiters :: "string list"
  MaxClusters :: int
  ParamString :: string

record Volume =
  Values :: "(int \<times> int) list"   \<comment> \<open>0 timestamp, 1 count\<close>

record LogCluster =
  idC :: int
  Size :: int
  Tokens :: "string list"
  Samples :: "string list"
  Volume :: Volume

definition timeResolution :: int where
  "timeResolution = 10000000000"

definition maxSamples :: nat where
  "maxSamples = 10"

definition truncateTimestamp :: "int \<Rightarrow> int" where
  "truncateTimestamp ts = ts - goRem ts timeResolution"

subsection \<open>Volume\<close>

definition initVolume :: "int \<Rightarrow> Volume" where
  "initVolume ts = \<lparr>Values = [(ts, 1)]\<rparr>"

definition Volume_Matches :: "Volume \<Rightarrow> int" where
  "Volume_Matches x = sum_list (map snd (Values x))"

definition bump :: "(int \<times> int) list \<Rightarrow> nat \<Rightarrow> (int \<times> int) list" where
  "bump vs i = vs[i := (fst (vs ! i), snd (vs ! i) + 1)]"

text \<open>
  \<open>Volume.Add\<close>. In the prepend case \<open>slices.Grow\<close> returns a slice of the same
  length (only the capacity grows), so \<open>copy(x.Values[1:], x.Values)\<close> moves all
  buckets but the last one place to the right, and the last bucket is overwritten.
  The default case searches on field 1, as the source does.
\<close>

definition Volume_Add :: "Volume \<Rightarrow> int \<Rightarrow> panic + Volume" where
  "Volume_Add x ts =
    (let t = truncateTimestamp ts; vs = Values x in
     if vs = [] then Inl PanicVolumeIndex
     else
       let first_ts = fst (vs ! 0); last_ts = fst (vs ! (length vs - 1)) in
       if last_ts = t then Inr (x\<lparr>Values := bump vs (length vs - 1)\<rparr>)
       else if first_ts > t then Inr (x\<lparr>Values := (t, 1) # butlast vs\<rparr>)
       else if last_ts < t then Inr (x\<lparr>Values := vs @ [(t, 1)]\<rparr>)
       else
         let index = Search (length vs) (\<lambda>i. snd (vs ! i) \<ge> t) in
         if index < length vs \<and> snd (vs ! index) = t
         then Inr (x\<lparr>Values := bump vs index\<rparr>)
         else Inr (x\<lparr>Values := take index vs @ [(t, 1)] @ drop index vs\<rparr>))"

definition LogCluster_append :: "LogCluster \<Rightarrow> string \<Rightarrow> int \<Rightarrow> panic + LogCluster" where
  "LogCluster_append c content ts =
    (case Volume_Add (Volume c) ts of
       Inl e \<Rightarrow> Inl e
     | Inr v \<Rightarrow>
         Inr (if length (Samples c) < maxSamples
              then c\<lparr>Volume := v, Samples := Samples c @ [content]\<rparr>
              else c\<lparr>Volume := v\<rparr>))"

subsection \<open>The LRU cache of clusters\<close>

text \<open>
  \<open>simplelru.LRU\<close> (hashicorp/golang-lru), the library behind \<open>LogClusterCache\<close>:
  \<open>evictList\<close> holds the entries, the most recently used first. \<open>Add\<close> moves an
  existing key to the front and replaces its value, or pushes a new entry and then
  removes the oldest one when the list is longer than \<open>size\<close>; \<open>Get\<close> moves the
  entry to the front; \<open>Peek\<close> reads without moving; \<open>Keys\<close> lists the keys from the
  oldest to the newest.
\<close>

record LRU =
  size_LRU :: int
  evictList :: "(int \<times> LogCluster) list"

definition LRU_Add :: "LRU \<Rightarrow> int \<Rightarrow> LogCluster \<Rightarrow> LRU" where
  "LRU_Add c key v =
    (case map_of (evictList c) key of
       Some old \<Rightarrow> c\<lparr>evictList := (key, v) # filter (\<lambda>e. fst e \<noteq> key) (evictList c)\<rparr>
     | None \<Rightarrow>
         (let l = (key, v) # evictList c in
          if int (length l) > size_LRU c then c\<lparr>evictList := butlast l\<rparr>
          else c\<lparr>evictList := l\<rparr>))"

definition LRU_Get :: "LRU \<Rightarrow> int \<Rightarrow> LogCluster option \<times> LRU" where
  "LRU_Get c key =
    (case map_of (evictList c) key of
       Some v \<Rightarrow> (Some v, c\<lparr>evictList := (key, v) # filter (\<lambda>e. fst e \<noteq> key) (evictList c)\<rparr>)
     | None \<Rightarrow> (None, c))"

definition LRU_Peek :: "LRU \<Rightarrow> int \<Rightarrow> LogCluster option" where
  "LRU_Peek c key = map_of (evictList c) key"

definition LRU_Keys :: "LRU \<Rightarrow> int list" where
  "LRU_Keys c = rev (map fst (evictList c))"

text \<open>
  \<open>LogClusterCache\<close> has one field, the cache. \<open>NewLRU\<close> returns a nil cache (and an
  error that \<open>createLogClusterCache\<close> drops) for a size below 1: \<open>None\<close>.
\<close>

type_synonym LogClusterCache = "LRU option"

definition MaxInt :: int where
  "MaxInt = 9223372036854775807"

definition NewLRU :: "int \<Rightarrow> LRU option" where
  "NewLRU n = (if n \<le> 0 then None else Some \<lparr>size_LRU = n, evictList = []\<rparr>)"

definition createLogClusterCache :: "int \<Rightarrow> LogClusterCache" where
  "createLogClusterCache maxSize = NewLRU (if maxSize = 0 then MaxInt else maxSize)"

definition LogClusterCache_Values :: "LogClusterCache \<Rightarrow> panic + LogCluster list" where
  "LogClusterCache_Values c =
    (case c of
       None \<Rightarrow> Inl PanicNilCache
     | Some l \<Rightarrow> Inr (concat (map (\<lambda>key. case LRU_Peek l key of Some v \<Rightarrow> [v] | None \<Rightarrow> [])
                                 (LRU_Keys l))))"

definition LogClusterCache_Set :: "LogClusterCache \<Rightarrow> int \<Rightarrow> LogCluster \<Rightarrow> panic + LogClusterCache" where
  "LogClusterCache_Set c key cluster =
    (case c of None \<Rightarrow> Inl PanicNilCache | Some l \<Rightarrow> Inr (Some (LRU_Add l key cluster)))"

definition LogClusterCache_Get ::
    "LogClusterCache \<Rightarrow> int \<Rightarrow> panic + (LogCluster option \<times> LogClusterCache)" where
  "LogClusterCache_Get c key =
    (case c of
       None \<Rightarrow> Inl PanicNilCache
     | Some l \<Rightarrow> (case LRU_Get l key of (v, l') \<Rightarrow> Inr (v, Some l')))"

text \<open>
  The cache stores pointers: an assignment to a field of a cluster that was read from
  the cache changes the entry in place, without moving it. Every entry is stored under
  the identifier of its cluster (\<open>Train\<close> is the only caller of \<open>Set\<close>), so the entry
  is the one under \<open>key\<close>.
\<close>

definition assignCluster :: "LogClusterCache \<Rightarrow> int \<Rightarrow> LogCluster \<Rightarrow> LogClusterCache" where
  "assignCluster c key new =
    map_option (\<lambda>l. l\<lparr>evictList := map (\<lambda>e. if fst e = key then (key, new) else e)
                                          (evictList l)\<rparr>) c"

subsection \<open>The prefix tree\<close>

text \<open>
  \<open>keyToChildNode\<close> is a Go map: an association list whose keys are distinct, a new
  key added at the end. Every node has one parent, so the assignment to a field of a
  child is the update of the child in its parent.
\<close>

datatype Node = Node (keyToChildNode: "(string \<times> Node) list") (clusterIDs: "int list")

definition createNode :: Node where
  "createNode = Node [] []"

record Drain =
  config :: Config
  rootNode :: Node
  idToCluster :: LogClusterCache
  clustersCounter :: int

definition DefaultConfig :: Config where
  "DefaultConfig =
    \<lparr>maxNodeDepth = 0, LogClusterDepth = 4, SimTh = 4 / 10, MaxChildren = 100,
     ExtraDelimiters = [], MaxClusters = 0, ParamString = ''<*>''\<rparr>"

definition New :: "Config \<Rightarrow> panic + Drain" where
  "New cfg =
    (if LogClusterDepth cfg < 3 then Inl PanicDepth
     else Inr \<lparr>config = cfg\<lparr>maxNodeDepth := LogClusterDepth cfg - 2\<rparr>,
               rootNode = createNode,
               idToCluster = createLogClusterCache (MaxClusters cfg),
               clustersCounter = 0\<rparr>)"

definition Clusters :: "Drain \<Rightarrow> panic + LogCluster list" where
  "Clusters d = LogClusterCache_Values (idToCluster d)"

subsection \<open>Tokens, scores and templates\<close>

definition getContentAsTokens :: "Config \<Rightarrow> string \<Rightarrow> string list" where
  "getContentAsTokens cfg content =
    Split (foldl (\<lambda>content extraDelimiter. Replace content extraDelimiter '' '')
                 (TrimSpace content) (ExtraDelimiters cfg))
          CHR '' ''"

fun getSeqDistance_loop :: "string \<Rightarrow> string list \<Rightarrow> string list \<Rightarrow> int \<times> int \<Rightarrow> int \<times> int" where
  "getSeqDistance_loop p (token1 # seq1) (token2 # seq2) (simTokens, paramCount) =
    (if token1 = p then getSeqDistance_loop p seq1 seq2 (simTokens, paramCount + 1)
     else if token1 = token2 then getSeqDistance_loop p seq1 seq2 (simTokens + 1, paramCount)
     else getSeqDistance_loop p seq1 seq2 (simTokens, paramCount))"
| "getSeqDistance_loop p seq1 seq2 acc = acc"

text \<open>The score is \<open>None\<close> where Go computes \<open>0 / 0\<close>: a NaN, which no comparison accepts.\<close>

definition getSeqDistance ::
    "Config \<Rightarrow> string list \<Rightarrow> string list \<Rightarrow> bool \<Rightarrow> panic + (rat option \<times> int)" where
  "getSeqDistance cfg seq1 seq2 includeParams =
    (if length seq1 \<noteq> length seq2 then Inl PanicSeqLength
     else
       (case getSeqDistance_loop (ParamString cfg) seq1 seq2 (0, 0) of
          (simTokens, paramCount) \<Rightarrow>
            (let simTokens' = (if includeParams then simTokens + paramCount else simTokens) in
             Inr (if seq1 = [] then None
                  else Some (of_int simTokens' / of_int (int (length seq1))),
                  paramCount))))"

definition createTemplate :: "Config \<Rightarrow> string list \<Rightarrow> string list \<Rightarrow> panic + string list" where
  "createTemplate cfg seq1 seq2 =
    (if length seq1 \<noteq> length seq2 then Inl PanicSeqLength
     else Inr (map (\<lambda>(t1, t2). if t1 \<noteq> t2 then ParamString cfg else t2) (zip seq1 seq2)))"

text \<open>
  \<open>unicode.IsNumber\<close> is a table of the standard library; the model takes it as the
  parameter \<open>isNumber\<close>, a predicate on runes. \<open>isNumberLatin1\<close> is the table up to
  U+00FF, for the evaluation of concrete lines.
\<close>

function runes :: "string \<Rightarrow> nat list" where
  "runes s = (if s = [] then [] else runeAt s # runes (drop (widthAt s) s))"
  by pat_completeness auto
termination
  by (relation "measure length") (auto simp: widthAt_def)

declare runes.simps [simp del]

definition hasNumbers :: "(nat \<Rightarrow> bool) \<Rightarrow> string \<Rightarrow> bool" where
  "hasNumbers isNumber s = list_ex isNumber (runes s)"

definition isNumberLatin1 :: "nat \<Rightarrow> bool" where
  "isNumberLatin1 r =
    ((0x30 \<le> r \<and> r \<le> 0x39) \<or> r \<in> set [0xB2, 0xB3, 0xB9, 0xBC, 0xBD, 0xBE])"

subsection \<open>Search\<close>

fun fastMatch_loop ::
    "Config \<Rightarrow> LogClusterCache \<Rightarrow> int list \<Rightarrow> string list \<Rightarrow> bool
      \<Rightarrow> rat \<times> int \<times> LogCluster option
      \<Rightarrow> panic + ((rat \<times> int \<times> LogCluster option) \<times> LogClusterCache)" where
  "fastMatch_loop cfg c [] tokens includeParams acc = Inr (acc, c)"
| "fastMatch_loop cfg c (clusterID # ids) tokens includeParams (maxSim, maxParamCount, maxCluster) =
    (case LogClusterCache_Get c clusterID of
       Inl e \<Rightarrow> Inl e
     | Inr (None, c') \<Rightarrow>
         fastMatch_loop cfg c' ids tokens includeParams (maxSim, maxParamCount, maxCluster)
     | Inr (Some cluster, c') \<Rightarrow>
         (case getSeqDistance cfg (Tokens cluster) tokens includeParams of
            Inl e \<Rightarrow> Inl e
          | Inr (None, paramCount) \<Rightarrow>
              fastMatch_loop cfg c' ids tokens includeParams (maxSim, maxParamCount, maxCluster)
          | Inr (Some curSim, paramCount) \<Rightarrow>
              if curSim > maxSim \<or> (curSim = maxSim \<and> paramCount > maxParamCount)
              then fastMatch_loop cfg c' ids tokens includeParams (curSim, paramCount, Some cluster)
              else fastMatch_loop cfg c' ids tokens includeParams
                     (maxSim, maxParamCount, maxCluster)))"

definition fastMatch ::
    "Config \<Rightarrow> LogClusterCache \<Rightarrow> int list \<Rightarrow> string list \<Rightarrow> rat \<Rightarrow> bool
      \<Rightarrow> panic + (LogCluster option \<times> LogClusterCache)" where
  "fastMatch cfg c clusterIDs' tokens simTh includeParams =
    (case fastMatch_loop cfg c clusterIDs' tokens includeParams (- 1, - 1, None) of
       Inl e \<Rightarrow> Inl e
     | Inr ((maxSim, maxParamCount, maxCluster), c') \<Rightarrow>
         Inr (if maxSim \<ge> simTh then maxCluster else None, c'))"

fun treeSearch_loop :: "Config \<Rightarrow> Node \<Rightarrow> int \<Rightarrow> int \<Rightarrow> string list \<Rightarrow> Node option" where
  "treeSearch_loop cfg curNode curNodeDepth tokenCount [] = Some curNode"
| "treeSearch_loop cfg curNode curNodeDepth tokenCount (token # rest) =
    (if curNodeDepth \<ge> maxNodeDepth cfg then Some curNode
     else if curNodeDepth = tokenCount then Some curNode
     else
       (case map_of (keyToChildNode curNode) token of
          Some child \<Rightarrow> treeSearch_loop cfg child (curNodeDepth + 1) tokenCount rest
        | None \<Rightarrow>
            (case map_of (keyToChildNode curNode) (ParamString cfg) of
               Some child \<Rightarrow> treeSearch_loop cfg child (curNodeDepth + 1) tokenCount rest
             | None \<Rightarrow> None)))"

definition treeSearch ::
    "Config \<Rightarrow> LogClusterCache \<Rightarrow> Node \<Rightarrow> string list \<Rightarrow> rat \<Rightarrow> bool
      \<Rightarrow> panic + (LogCluster option \<times> LogClusterCache)" where
  "treeSearch cfg c rootNode' tokens simTh includeParams =
    (let tokenCount = int (length tokens) in
     case map_of (keyToChildNode rootNode') (Itoa (length tokens)) of
       None \<Rightarrow> Inr (None, c)
     | Some curNode \<Rightarrow>
         if tokenCount = 0
         then (case clusterIDs curNode of
                 [] \<Rightarrow> Inl PanicCandidateIndex
               | clusterID # ids \<Rightarrow> LogClusterCache_Get c clusterID)
         else
           (case treeSearch_loop cfg curNode 1 tokenCount tokens of
              None \<Rightarrow> Inr (None, c)
            | Some leaf \<Rightarrow> fastMatch cfg c (clusterIDs leaf) tokens simTh includeParams))"

subsection \<open>Insertion into the tree\<close>

text \<open>The clean-up at a leaf keeps the identifiers that \<open>Get\<close> still finds.\<close>

fun liveClusterIDs :: "LogClusterCache \<Rightarrow> int list \<Rightarrow> panic + (int list \<times> LogClusterCache)" where
  "liveClusterIDs c [] = Inr ([], c)"
| "liveClusterIDs c (clusterID # ids) =
    (case LogClusterCache_Get c clusterID of
       Inl e \<Rightarrow> Inl e
     | Inr (v, c') \<Rightarrow>
         (case liveClusterIDs c' ids of
            Inl e \<Rightarrow> Inl e
          | Inr (newClusterIDs, c'') \<Rightarrow>
              Inr (if v \<noteq> None then clusterID # newClusterIDs else newClusterIDs, c'')))"

text \<open>
  The branching of one step of the loop: the key of the child the loop goes on with,
  and the children of the current node, with the child that the step creates. Where
  the source reads a wildcard child that the map does not have, \<open>curNode\<close> is nil and
  the next step of the loop dereferences it.
\<close>

definition chooseChild ::
    "(nat \<Rightarrow> bool) \<Rightarrow> Config \<Rightarrow> Node \<Rightarrow> string \<Rightarrow> panic + (string \<times> (string \<times> Node) list)" where
  "chooseChild isNumber cfg curNode token =
    (let children = keyToChildNode curNode; n = int (length children) in
     case map_of children token of
       Some child \<Rightarrow> Inr (token, children)
     | None \<Rightarrow>
         if \<not> hasNumbers isNumber token then
           (case map_of children (ParamString cfg) of
              Some wild \<Rightarrow>
                if n < MaxChildren cfg then Inr (token, children @ [(token, createNode)])
                else Inr (ParamString cfg, children)
            | None \<Rightarrow>
                if n + 1 < MaxChildren cfg then Inr (token, children @ [(token, createNode)])
                else if n + 1 = MaxChildren cfg
                then Inr (ParamString cfg, children @ [(ParamString cfg, createNode)])
                else Inl PanicNilNode)
         else
           (case map_of children (ParamString cfg) of
              None \<Rightarrow> Inr (ParamString cfg, children @ [(ParamString cfg, createNode)])
            | Some wild \<Rightarrow> Inr (ParamString cfg, children)))"

fun addSeqToPrefixTree_loop ::
    "(nat \<Rightarrow> bool) \<Rightarrow> Config \<Rightarrow> LogClusterCache \<Rightarrow> int \<Rightarrow> int \<Rightarrow> int \<Rightarrow> string list \<Rightarrow> Node
      \<Rightarrow> panic + (Node \<times> LogClusterCache)" where
  "addSeqToPrefixTree_loop isNumber cfg c clusterID tokenCount currentDepth [] curNode =
    Inr (curNode, c)"
| "addSeqToPrefixTree_loop isNumber cfg c clusterID tokenCount currentDepth (token # rest) curNode =
    (if currentDepth \<ge> maxNodeDepth cfg \<or> currentDepth \<ge> tokenCount then
       (case liveClusterIDs c (clusterIDs curNode) of
          Inl e \<Rightarrow> Inl e
        | Inr (newClusterIDs, c') \<Rightarrow>
            Inr (Node (keyToChildNode curNode) (newClusterIDs @ [clusterID]), c'))
     else
       (case chooseChild isNumber cfg curNode token of
          Inl e \<Rightarrow> Inl e
        | Inr (key, children) \<Rightarrow>
            (case map_of children key of
               None \<Rightarrow> Inl PanicNilNode
             | Some child \<Rightarrow>
                 (case addSeqToPrefixTree_loop isNumber cfg c clusterID tokenCount
                         (currentDepth + 1) rest child of
                    Inl e \<Rightarrow> Inl e
                  | Inr (child', c') \<Rightarrow>
                      Inr (Node (AList.update key child' children) (clusterIDs curNode), c')))))"

definition addSeqToPrefixTree ::
    "(nat \<Rightarrow> bool) \<Rightarrow> Config \<Rightarrow> LogClusterCache \<Rightarrow> Node \<Rightarrow> LogCluster
      \<Rightarrow> panic + (Node \<times> LogClusterCache)" where
  "addSeqToPrefixTree isNumber cfg c rootNode' cluster =
    (let tokenCount = int (length (Tokens cluster));
         tokenCountStr = Itoa (length (Tokens cluster));
         firstLayerNode = (case map_of (keyToChildNode rootNode') tokenCountStr of
                             Some n \<Rightarrow> n | None \<Rightarrow> createNode)
     in
       if tokenCount = 0 then
         Inr (Node (AList.update tokenCountStr
                      (Node (keyToChildNode firstLayerNode)
                            (clusterIDs firstLayerNode @ [idC cluster]))
                      (keyToChildNode rootNode'))
                   (clusterIDs rootNode'), c)
       else
         (case addSeqToPrefixTree_loop isNumber cfg c (idC cluster) tokenCount 1
                 (Tokens cluster) firstLayerNode of
            Inl e \<Rightarrow> Inl e
          | Inr (firstLayerNode', c') \<Rightarrow>
              Inr (Node (AList.update tokenCountStr firstLayerNode' (keyToChildNode rootNode'))
                        (clusterIDs rootNode'), c')))"

subsection \<open>Train and Match\<close>

definition Train :: "(nat \<Rightarrow> bool) \<Rightarrow> Drain \<Rightarrow> string \<Rightarrow> int \<Rightarrow> panic + (LogCluster \<times> Drain)" where
  "Train isNumber d content ts =
    (let contentTokens = getContentAsTokens (config d) content in
     case treeSearch (config d) (idToCluster d) (rootNode d) contentTokens
            (SimTh (config d)) False of
       Inl e \<Rightarrow> Inl e
     | Inr (None, c1) \<Rightarrow>
         (let clusterID = clustersCounter d + 1;
              matchCluster = \<lparr>idC = clusterID, Size = 1, Tokens = contentTokens,
                              Samples = [content], Volume = initVolume ts\<rparr>
          in case LogClusterCache_Set c1 clusterID matchCluster of
               Inl e \<Rightarrow> Inl e
             | Inr c2 \<Rightarrow>
                 (case addSeqToPrefixTree isNumber (config d) c2 (rootNode d) matchCluster of
                    Inl e \<Rightarrow> Inl e
                  | Inr (root', c3) \<Rightarrow>
                      Inr (matchCluster,
                           d\<lparr>rootNode := root', idToCluster := c3,
                             clustersCounter := clusterID\<rparr>)))
     | Inr (Some matchCluster, c1) \<Rightarrow>
         (case createTemplate (config d) contentTokens (Tokens matchCluster) of
            Inl e \<Rightarrow> Inl e
          | Inr newTemplateTokens \<Rightarrow>
              (case LogCluster_append
                      (matchCluster\<lparr>Tokens := newTemplateTokens, Size := Size matchCluster + 1\<rparr>)
                      content ts of
                 Inl e \<Rightarrow> Inl e
               | Inr matchCluster' \<Rightarrow>
                   (case LogClusterCache_Get
                           (assignCluster c1 (idC matchCluster) matchCluster')
                           (idC matchCluster') of
                      Inl e \<Rightarrow> Inl e
                    | Inr (v, c2) \<Rightarrow> Inr (matchCluster', d\<lparr>idToCluster := c2\<rparr>)))))"

definition Match :: "Drain \<Rightarrow> string \<Rightarrow> panic + (LogCluster option \<times> Drain)" where
  "Match d content =
    (case treeSearch (config d) (idToCluster d) (rootNode d)
            (getContentAsTokens (config d) content) 1 True of
       Inl e \<Rightarrow> Inl e
     | Inr (r, c) \<Rightarrow> Inr (r, d\<lparr>idToCluster := c\<rparr>))"

subsection \<open>Sequences of calls\<close>

datatype call = TrainCall string int | MatchCall string

fun run :: "(nat \<Rightarrow> bool) \<Rightarrow> Drain \<Rightarrow> call list \<Rightarrow> panic + (LogCluster option list \<times> Drain)" where
  "run isNumber d [] = Inr ([], d)"
| "run isNumber d (TrainCall content ts # calls) =
    (case Train isNumber d content ts of
       Inl e \<Rightarrow> Inl e
     | Inr (c, d') \<Rightarrow>
         (case run isNumber d' calls of
            Inl e \<Rightarrow> Inl e
          | Inr (rs, d'') \<Rightarrow> Inr (Some c # rs, d'')))"
| "run isNumber d (MatchCall content # calls) =
    (case Match d content of
       Inl e \<Rightarrow> Inl e
     | Inr (r, d') \<Rightarrow>
         (case run isNumber d' calls of
            Inl e \<Rightarrow> Inl e
          | Inr (rs, d'') \<Rightarrow> Inr (r # rs, d'')))"

text \<open>The keys of the cache, the most recently used first; the live clusters.\<close>

definition recency :: "Drain \<Rightarrow> int list" where
  "recency d = (case idToCluster d of None \<Rightarrow> [] | Some l \<Rightarrow> map fst (evictList l))"

definition resolve :: "LogClusterCache \<Rightarrow> int \<Rightarrow> LogCluster option" where
  "resolve c key = (case c of None \<Rightarrow> None | Some l \<Rightarrow> LRU_Peek l key)"

definition peek :: "Drain \<Rightarrow> int \<Rightarrow> LogCluster option" where
  "peek d key = resolve (idToCluster d) key"

subsection \<open>Invariants of the engine\<close>

text \<open>
  The identifiers below a node, and the nodes of a subtree.
\<close>

fun ids_of :: "Node \<Rightarrow> int set" where
  "ids_of (Node children ids) = set ids \<union> (\<Union>e \<in> set children. ids_of (snd e))"


text \<open>A cache that \<open>NewLRU\<close> built: it is there, and its size is positive.\<close>

definition cache_size_ok :: "LogClusterCache \<Rightarrow> bool" where
  "cache_size_ok c = (case c of None \<Rightarrow> False | Some l \<Rightarrow> 1 \<le> size_LRU l)"

text \<open>
  \<open>generalizes p t0 t1\<close>: the template \<open>t1\<close> has the length of \<open>t0\<close> and the wildcard
  \<open>p\<close> wherever \<open>t0\<close> has it.
\<close>

definition generalizes :: "string \<Rightarrow> string list \<Rightarrow> string list \<Rightarrow> bool" where
  "generalizes p t0 t1 = list_all2 (\<lambda>a b. a = p \<longrightarrow> b = p) t0 t1"

text \<open>
  The cache of an engine: every cluster is stored under its identifier, identifiers
  are at most the counter, and a volume has a bucket.
\<close>

definition cache_inv :: "Drain \<Rightarrow> bool" where
  "cache_inv d =
    (cache_size_ok (idToCluster d) \<and>
     (\<forall>k c. peek d k = Some c \<longrightarrow>
        idC c = k \<and> k \<le> clustersCounter d \<and> Values (Volume c) \<noteq> []))"

text \<open>
  The tree of an engine: the children of the root are keyed by token counts, and a
  live cluster below the child of a count has a template of that length.
\<close>

definition tree_inv :: "Drain \<Rightarrow> bool" where
  "tree_inv d =
    (\<forall>e \<in> set (keyToChildNode (rootNode d)).
       \<exists>n. fst e = Itoa n \<and>
         (\<forall>k \<in> ids_of (snd e). k \<le> clustersCounter d \<and>
            (\<forall>c. peek d k = Some c \<longrightarrow> length (Tokens c) = n)))"

definition callLine :: "call \<Rightarrow> string" where
  "callLine a = (case a of TrainCall content ts \<Rightarrow> content | MatchCall content \<Rightarrow> content)"

text \<open>One call: what it returns, and what it leaves of the clusters that were live.\<close>

definition step_ok :: "Drain \<Rightarrow> call \<Rightarrow> LogCluster option \<Rightarrow> Drain \<Rightarrow> bool" where
  "step_ok d a r d' =
    (cache_inv d' \<and> config d' = config d \<and> clustersCounter d \<le> clustersCounter d' \<and>
     (\<forall>c. r = Some c \<longrightarrow>
        peek d' (idC c) = Some c \<and>
        length (Tokens c) = length (getContentAsTokens (config d) (callLine a)) \<and>
        (clustersCounter d < idC c \<or>
         (\<exists>c0. peek d (idC c) = Some c0 \<and>
            generalizes (ParamString (config d)) (Tokens c0) (Tokens c)))) \<and>
     (\<forall>k x. peek d' k = Some x \<longrightarrow> (\<exists>c. r = Some c \<and> idC c = k) \<or> peek d k = Some x))"



subsection \<open>The engines of the examples\<close>

definition ex_cfg :: Config where
  "ex_cfg = DefaultConfig\<lparr>MaxClusters := 2\<rparr>"

definition ex_new :: Drain where
  "ex_new =
    \<lparr>config = ex_cfg\<lparr>maxNodeDepth := 2\<rparr>, rootNode = Node [] [],
     idToCluster = Some \<lparr>size_LRU = 2, evictList = []\<rparr>, clustersCounter = 0\<rparr>"

definition ex_c1 :: LogCluster where
  "ex_c1 = \<lparr>idC = 1, Size = 1, Tokens = [''a'', ''b'', ''c''], Samples = [''a b c''],
            Volume = \<lparr>Values = [(0, 1)]\<rparr>\<rparr>"

definition ex_c2 :: LogCluster where
  "ex_c2 = \<lparr>idC = 2, Size = 1, Tokens = [''x'', ''y'', ''z''], Samples = [''x y z''],
            Volume = \<lparr>Values = [(0, 1)]\<rparr>\<rparr>"

definition ex_c3 :: LogCluster where
  "ex_c3 = \<lparr>idC = 3, Size = 1, Tokens = [''a'', ''d'', ''e''], Samples = [''a d e''],
            Volume = \<lparr>Values = [(0, 1)]\<rparr>\<rparr>"

text \<open>The engine after \<open>Train("a b c", 0)\<close> and \<open>Train("x y z", 0)\<close>.\<close>

definition ex_trained :: Drain where
  "ex_trained =
    ex_new\<lparr>rootNode := Node [(''3'', Node [(''a'', Node [] [1]), (''x'', Node [] [2])] [])] [],
           idToCluster := Some \<lparr>size_LRU = 2, evictList = [(2, ex_c2), (1, ex_c1)]\<rparr>,
           clustersCounter := 2\<rparr>"

text \<open>
  Four calls of \<open>Train\<close>, of which the second and the fourth merge into cluster 1, the
  clusters they return, the engine after them, and the cluster that a fifth call,
  \<open>Train("a b e", 0)\<close>, returns.
\<close>

definition ex_merge_calls :: "call list" where
  "ex_merge_calls =
    [TrainCall ''a b c'' 0, TrainCall ''a b d'' 0, TrainCall ''a'' 0, TrainCall ''a b c'' 0]"

definition ex_m1 :: LogCluster where
  "ex_m1 = \<lparr>idC = 1, Size = 2, Tokens = [''a'', ''b'', ''<*>''], Samples = [''a b c'', ''a b d''],
            Volume = \<lparr>Values = [(0, 2)]\<rparr>\<rparr>"

definition ex_m2 :: LogCluster where
  "ex_m2 = \<lparr>idC = 2, Size = 1, Tokens = [''a''], Samples = [''a''],
            Volume = \<lparr>Values = [(0, 1)]\<rparr>\<rparr>"

definition ex_m3 :: LogCluster where
  "ex_m3 = \<lparr>idC = 1, Size = 3, Tokens = [''a'', ''b'', ''<*>''],
            Samples = [''a b c'', ''a b d'', ''a b c''], Volume = \<lparr>Values = [(0, 3)]\<rparr>\<rparr>"

definition ex_m4 :: LogCluster where
  "ex_m4 = \<lparr>idC = 1, Size = 4, Tokens = [''a'', ''b'', ''<*>''],
            Samples = [''a b c'', ''a b d'', ''a b c'', ''a b e''],
            Volume = \<lparr>Values = [(0, 4)]\<rparr>\<rparr>"

definition ex_merged :: Drain where
  "ex_merged =
    ex_new\<lparr>rootNode := Node [(''3'', Node [(''a'', Node [] [1])] []), (''1'', Node [] [2])] [],
           idToCluster := Some \<lparr>size_LRU = 2, evictList = [(1, ex_m3), (2, ex_m2)]\<rparr>,
           clustersCounter := 2\<rparr>"





section \<open>Properties\<close>

subsection \<open>Evaluation of concrete lines\<close>

lemma TrimLeft_id:
  assumes "s \<noteq> []" "of_char (hd s) < (128::nat)" "\<not> IsSpace (of_char (hd s))"
  shows "TrimLeft s = s"
proof -
  from assms obtain c cs where s: "s = c # cs" by (cases s) auto
  with assms have "runeAt s = of_char c" by (simp add: runeAt_def)
  with assms s show ?thesis by (subst TrimLeft.simps) simp
qed

lemma decodeLastRune_ascii:
  assumes "s \<noteq> []" "last s < 128"
  shows "decodeLastRune s = (last s, 1)"
proof -
  have "s ! nat (int (length s) - 1) = last s"
    using assms(1) by (simp add: last_conv_nth nat_diff_distrib')
  with assms show ?thesis by (simp add: decodeLastRune_def Let_def)
qed

lemma TrimRight_id:
  assumes "s \<noteq> []" "of_char (last s) < (128::nat)" "\<not> IsSpace (of_char (last s))"
  shows "TrimRight s = s"
proof -
  have "decodeLastRune (map of_char s) = (of_char (last s), 1)"
    using assms decodeLastRune_ascii [of "map of_char s"] by (simp add: last_map)
  with assms show ?thesis by (subst TrimRight.simps) simp
qed

lemma TrimSpace_id:
  assumes "s \<noteq> []" "of_char (hd s) < (128::nat)" "\<not> IsSpace (of_char (hd s))"
    "of_char (last s) < (128::nat)" "\<not> IsSpace (of_char (last s))"
  shows "TrimSpace s = s"
  using assms by (simp add: TrimSpace_def TrimLeft_id TrimRight_id)

lemma TrimSpace_Nil: "TrimSpace [] = []"
  by (simp add: TrimSpace_def TrimLeft.simps TrimRight.simps)

lemma tokens_a_b_c:
  "ExtraDelimiters cfg = [] \<Longrightarrow> getContentAsTokens cfg ''a b c'' = [''a'', ''b'', ''c'']"
  by (simp add: getContentAsTokens_def TrimSpace_id IsSpace_def)

lemma tokens_x_y_z:
  "ExtraDelimiters cfg = [] \<Longrightarrow> getContentAsTokens cfg ''x y z'' = [''x'', ''y'', ''z'']"
  by (simp add: getContentAsTokens_def TrimSpace_id IsSpace_def)

lemma tokens_a_d_e:
  "ExtraDelimiters cfg = [] \<Longrightarrow> getContentAsTokens cfg ''a d e'' = [''a'', ''d'', ''e'']"
  by (simp add: getContentAsTokens_def TrimSpace_id IsSpace_def)

lemma tokens_a: "ExtraDelimiters cfg = [] \<Longrightarrow> getContentAsTokens cfg ''a'' = [''a'']"
  by (simp add: getContentAsTokens_def TrimSpace_id IsSpace_def)

lemma tokens_wildcard:
  "ExtraDelimiters cfg = [] \<Longrightarrow> getContentAsTokens cfg ''<*>'' = [''<*>'']"
  by (simp add: getContentAsTokens_def TrimSpace_id IsSpace_def)

lemma Itoa_1: "Itoa (Suc 0) = ''1''"
  by code_simp

lemma Itoa_3: "Itoa (Suc (Suc (Suc 0))) = ''3''"
  by code_simp

lemma hasNumbers_letters:
  "hasNumbers isNumberLatin1 ''a'' = False" "hasNumbers isNumberLatin1 ''x'' = False"
  by code_simp+

lemmas eval_defs =
  Train_def Match_def treeSearch_def fastMatch_def getSeqDistance_def createTemplate_def
  LogClusterCache_Get_def LRU_Get_def LogClusterCache_Set_def LRU_Add_def
  addSeqToPrefixTree_def chooseChild_def createNode_def New_def createLogClusterCache_def
  NewLRU_def MaxInt_def DefaultConfig_def initVolume_def LogCluster_append_def Volume_Add_def
  assignCluster_def truncateTimestamp_def goRem_def timeResolution_def maxSamples_def
  bump_def Let_def Search_def Search_loop.simps Volume_Matches_def recency_def
  Clusters_def LogClusterCache_Values_def LRU_Keys_def LRU_Peek_def

lemmas eval_lines =
  tokens_a_b_c tokens_x_y_z tokens_a_d_e tokens_a tokens_wildcard Itoa_1 Itoa_3
  hasNumbers_letters

lemma ex_new_eq: "New ex_cfg = Inr ex_new"
  by (simp add: eval_defs ex_cfg_def ex_new_def)

lemma ex_trained_eq:
  "run isNumberLatin1 ex_new [TrainCall ''a b c'' 0, TrainCall ''x y z'' 0] =
     Inr ([Some ex_c1, Some ex_c2], ex_trained)"
  by (simp add: eval_defs eval_lines ex_cfg_def ex_new_def ex_trained_def ex_c1_def ex_c2_def)

lemma tokens_a_b_d:
  "ExtraDelimiters cfg = [] \<Longrightarrow> getContentAsTokens cfg ''a b d'' = [''a'', ''b'', ''d'']"
  by (simp add: getContentAsTokens_def TrimSpace_id IsSpace_def)

lemma tokens_a_b_e:
  "ExtraDelimiters cfg = [] \<Longrightarrow> getContentAsTokens cfg ''a b e'' = [''a'', ''b'', ''e'']"
  by (simp add: getContentAsTokens_def TrimSpace_id IsSpace_def)

lemma ex_merged_eq:
  "run isNumberLatin1 ex_new ex_merge_calls =
     Inr ([Some ex_c1, Some ex_m1, Some ex_m2, Some ex_m3], ex_merged)"
  by (simp add: eval_defs eval_lines tokens_a_b_d ex_cfg_def ex_new_def ex_merged_def ex_c1_def
        ex_m1_def ex_m2_def ex_m3_def ex_merge_calls_def)



subsection \<open>The cache\<close>

lemma resolve_None [simp]: "resolve None k = None"
  by (simp add: resolve_def)

lemma resolve_Some [simp]: "resolve (Some l) k = map_of (evictList l) k"
  by (simp add: resolve_def LRU_Peek_def)

lemma map_of_filter_neq [simp]:
  "k' \<noteq> k \<Longrightarrow> map_of (filter (\<lambda>e. fst e \<noteq> k) el) k' = map_of el k'"
  by (induction el) auto

lemma map_of_move_front:
  "map_of el k = Some v \<Longrightarrow> map_of ((k, v) # filter (\<lambda>e. fst e \<noteq> k) el) = map_of el"
  by (rule ext) auto

lemma length_filter_key:
  "map_of el k = Some a \<Longrightarrow> Suc (length (filter (\<lambda>e. fst e \<noteq> k) el)) \<le> length el"
  using length_filter_less [of "(k, a)" el "\<lambda>e. fst e \<noteq> k"]
  by (auto dest!: map_of_SomeD)

lemma LRU_Get_peek:
  assumes "LRU_Get l k = (v, l')"
  shows "v = map_of (evictList l) k \<and> map_of (evictList l') = map_of (evictList l) \<and>
     size_LRU l' = size_LRU l \<and> length (evictList l') \<le> length (evictList l)"
proof (cases "map_of (evictList l) k")
  case None
  with assms show ?thesis by (auto simp: LRU_Get_def)
next
  case (Some a)
  with assms length_filter_key [OF Some] map_of_move_front [OF Some] show ?thesis
    by (auto simp: LRU_Get_def)
qed

lemma Get_Inr:
  assumes "LogClusterCache_Get c k = Inr (v, c')"
  shows "v = resolve c k \<and> resolve c' = resolve c \<and> c \<noteq> None \<and> c' \<noteq> None"
proof (cases c)
  case None
  with assms show ?thesis by (simp add: LogClusterCache_Get_def)
next
  case (Some l)
  with assms obtain l' where "LRU_Get l k = (v, l')" "c' = Some l'"
    by (auto simp: LogClusterCache_Get_def split: prod.splits)
  with Some LRU_Get_peek [of l k v l'] show ?thesis by (auto intro!: ext)
qed

lemma Get_Inl: "LogClusterCache_Get c k = Inl e \<Longrightarrow> e = PanicNilCache \<and> c = None"
  by (auto simp: LogClusterCache_Get_def split: option.splits prod.splits)

lemma Get_total:
  "c \<noteq> None \<Longrightarrow>
     \<exists>c'. LogClusterCache_Get c k = Inr (resolve c k, c') \<and> resolve c' = resolve c \<and> c' \<noteq> None"
  by (cases "LogClusterCache_Get c k") (auto dest: Get_Inl Get_Inr)

lemma Set_Inl: "LogClusterCache_Set c k v = Inl e \<Longrightarrow> e = PanicNilCache \<and> c = None"
  by (auto simp: LogClusterCache_Set_def split: option.splits)

lemma map_of_butlast: "map_of (butlast xs) k = Some v \<Longrightarrow> map_of xs k = Some v"
  by (induction xs) (auto split: if_splits)

lemma LRU_Add_other:
  "k' \<noteq> k \<Longrightarrow> map_of (evictList (LRU_Add l k v)) k' = Some x \<Longrightarrow> map_of (evictList l) k' = Some x"
  by (auto simp: LRU_Add_def Let_def split: option.splits if_splits dest: map_of_butlast)

lemma LRU_Add_key:
  "1 \<le> size_LRU l \<Longrightarrow> map_of (evictList (LRU_Add l k v)) k = Some v"
  by (cases "evictList l") (auto simp: LRU_Add_def Let_def split: option.splits if_splits)

lemma LRU_Add_size [simp]: "size_LRU (LRU_Add l k v) = size_LRU l"
  by (auto simp: LRU_Add_def Let_def split: option.splits)

lemma cache_size_ok_Some [simp]: "cache_size_ok (Some l) = (1 \<le> size_LRU l)"
  by (simp add: cache_size_ok_def)

lemma cache_size_ok_None [simp]: "\<not> cache_size_ok None"
  by (simp add: cache_size_ok_def)

lemma Get_size_ok:
  "LogClusterCache_Get c k = Inr (v, c') \<Longrightarrow> cache_size_ok c' = cache_size_ok c"
  by (cases c) (auto simp: LogClusterCache_Get_def split: prod.splits dest: LRU_Get_peek)

lemma Set_Inr:
  assumes "LogClusterCache_Set c k v = Inr c'"
  shows "c \<noteq> None" "cache_size_ok c' = cache_size_ok c"
    "cache_size_ok c \<Longrightarrow> resolve c' k = Some v"
    "k' \<noteq> k \<Longrightarrow> resolve c' k' = Some x \<Longrightarrow> resolve c k' = Some x"
  using assms
  by (auto simp: LogClusterCache_Set_def LRU_Add_key split: option.splits dest: LRU_Add_other)

lemma Set_total: "c \<noteq> None \<Longrightarrow> \<exists>c'. LogClusterCache_Set c k v = Inr c'"
  by (auto simp: LogClusterCache_Set_def)

lemma map_of_assign:
  "map_of (map (\<lambda>e. if fst e = k then (k, new) else e) el) k' =
     (if k' = k then map_option (\<lambda>_. new) (map_of el k) else map_of el k')"
  by (induction el) auto

lemma resolve_assignCluster:
  "resolve (assignCluster c k new) k' =
     (if k' = k then map_option (\<lambda>_. new) (resolve c k) else resolve c k')"
  by (cases c) (auto simp: assignCluster_def map_of_assign)

lemma assignCluster_None [simp]: "(assignCluster c k new = None) = (c = None)"
  by (simp add: assignCluster_def)

lemma assignCluster_size_ok [simp]: "cache_size_ok (assignCluster c k new) = cache_size_ok c"
  by (cases c) (auto simp: assignCluster_def)

subsection \<open>Scores and templates: lemmas\<close>

lemma getSeqDistance_Inl:
  "getSeqDistance cfg seq1 seq2 inc = Inl e \<Longrightarrow> e = PanicSeqLength \<and> length seq1 \<noteq> length seq2"
  by (auto simp: getSeqDistance_def Let_def split: if_splits prod.splits)

lemma getSeqDistance_Inr:
  "getSeqDistance cfg seq1 seq2 inc = Inr r \<Longrightarrow> length seq1 = length seq2"
  by (auto simp: getSeqDistance_def Let_def split: if_splits prod.splits)

lemma createTemplate_Inl:
  "createTemplate cfg seq1 seq2 = Inl e \<Longrightarrow> e = PanicSeqLength \<and> length seq1 \<noteq> length seq2"
  by (auto simp: createTemplate_def split: if_splits)

lemma createTemplate_Inr:
  assumes "createTemplate cfg seq1 seq2 = Inr r"
  shows "length seq1 = length seq2" "length r = length seq2"
    "i < length seq2 \<Longrightarrow> r ! i = (if seq1 ! i = seq2 ! i then seq2 ! i else ParamString cfg)"
  using assms by (auto simp: createTemplate_def split: if_splits)

subsection \<open>Candidates and clean-up\<close>

lemma fastMatch_loop_Inr:
  assumes "fastMatch_loop cfg c ids tokens inc (s0, p0, b0) = Inr ((s, p, b), c')"
  shows "resolve c' = resolve c \<and> cache_size_ok c' = cache_size_ok c \<and> (ids \<noteq> [] \<longrightarrow> c \<noteq> None) \<and>
     (b = b0 \<or> (\<exists>k \<in> set ids. \<exists>cl. resolve c k = Some cl \<and> b = Some cl \<and>
                  length (Tokens cl) = length tokens))"
  using assms
proof (induction ids arbitrary: c s0 p0 b0)
  case Nil
  then show ?case by simp
next
  case (Cons k ids)
  show ?case
  proof (cases "LogClusterCache_Get c k")
    case (Inl e)
    with Cons.prems show ?thesis by simp
  next
    case (Inr r)
    obtain v c1 where r: "r = (v, c1)" by (cases r)
    note g = Get_Inr [OF Inr [unfolded r]] Get_size_ok [OF Inr [unfolded r]]
    show ?thesis
    proof (cases v)
      case None
      with Cons.prems Inr r
      have "fastMatch_loop cfg c1 ids tokens inc (s0, p0, b0) = Inr ((s, p, b), c')" by simp
      from Cons.IH [OF this] g show ?thesis by auto
    next
      case (Some cl)
      show ?thesis
      proof (cases "getSeqDistance cfg (Tokens cl) tokens inc")
        case (Inl e)
        with Cons.prems Inr r Some show ?thesis by simp
      next
        case (Inr q)
        obtain cur pc where q: "q = (cur, pc)" by (cases q)
        have len: "length (Tokens cl) = length tokens"
          using getSeqDistance_Inr [OF Inr] .
        from Cons.prems \<open>LogClusterCache_Get c k = Inr r\<close> r Some Inr q
        consider
            "fastMatch_loop cfg c1 ids tokens inc (s0, p0, b0) = Inr ((s, p, b), c')"
          | x where "fastMatch_loop cfg c1 ids tokens inc (x, pc, Some cl) = Inr ((s, p, b), c')"
          by (cases cur) (auto split: if_splits)
        then show ?thesis
        proof cases
          case 1
          from Cons.IH [OF this] g show ?thesis by auto
        next
          case 2
          from Cons.IH [OF this] g Some len show ?thesis by auto
        qed
      qed
    qed
  qed
qed

lemma fastMatch_loop_Inl:
  assumes "fastMatch_loop cfg c ids tokens inc acc = Inl e"
  shows "(e = PanicNilCache \<and> c = None) \<or>
         (e = PanicSeqLength \<and> (\<exists>k \<in> set ids. \<exists>cl. resolve c k = Some cl \<and>
             length (Tokens cl) \<noteq> length tokens))"
  using assms
proof (induction ids arbitrary: c acc)
  case Nil
  then show ?case by simp
next
  case (Cons k ids)
  obtain s0 p0 b0 where acc: "acc = (s0, p0, b0)" by (cases acc)
  show ?case
  proof (cases "LogClusterCache_Get c k")
    case (Inl e')
    with Cons.prems acc Get_Inl [OF Inl] show ?thesis by simp
  next
    case (Inr r)
    obtain v c1 where r: "r = (v, c1)" by (cases r)
    note g = Get_Inr [OF Inr [unfolded r]]
    show ?thesis
    proof (cases v)
      case None
      with Cons.prems Inr r acc
      have "fastMatch_loop cfg c1 ids tokens inc (s0, p0, b0) = Inl e" by simp
      from Cons.IH [OF this] g show ?thesis by auto
    next
      case (Some cl)
      show ?thesis
      proof (cases "getSeqDistance cfg (Tokens cl) tokens inc")
        case (Inl e')
        with Cons.prems \<open>LogClusterCache_Get c k = Inr r\<close> r Some acc getSeqDistance_Inl [OF Inl] g
        show ?thesis by auto
      next
        case (Inr q)
        obtain cur pc where q: "q = (cur, pc)" by (cases q)
        from Cons.prems \<open>LogClusterCache_Get c k = Inr r\<close> r Some Inr q acc
        obtain acc' where "fastMatch_loop cfg c1 ids tokens inc acc' = Inl e"
          by (cases cur) (auto split: if_splits)
        from Cons.IH [OF this] g show ?thesis by auto
      qed
    qed
  qed
qed

lemma fastMatch_Inr:
  assumes "fastMatch cfg c ids tokens th inc = Inr (r, c')"
  shows "resolve c' = resolve c" "cache_size_ok c' = cache_size_ok c"
    "r = Some cl \<Longrightarrow> \<exists>k \<in> set ids. resolve c k = Some cl \<and> length (Tokens cl) = length tokens"
proof -
  from assms obtain s p b where
    l: "fastMatch_loop cfg c ids tokens inc (- 1, - 1, None) = Inr ((s, p, b), c')"
    and r: "r = (if th \<le> s then b else None)"
    by (auto simp: fastMatch_def split: sum.splits prod.splits)
  from fastMatch_loop_Inr [OF l] show "resolve c' = resolve c" "cache_size_ok c' = cache_size_ok c"
    by auto
  show "\<exists>k \<in> set ids. resolve c k = Some cl \<and> length (Tokens cl) = length tokens" if "r = Some cl"
    using fastMatch_loop_Inr [OF l] r that by (auto split: if_splits)
qed

lemma fastMatch_Inl:
  assumes "fastMatch cfg c ids tokens th inc = Inl e"
  shows "(e = PanicNilCache \<and> c = None) \<or>
         (e = PanicSeqLength \<and> (\<exists>k \<in> set ids. \<exists>cl. resolve c k = Some cl \<and>
             length (Tokens cl) \<noteq> length tokens))"
  using assms fastMatch_loop_Inl [of cfg c ids tokens inc "(- 1, - 1, None)" e]
  by (auto simp: fastMatch_def split: sum.splits prod.splits)

lemma liveClusterIDs_Inr:
  "liveClusterIDs c ids = Inr (ids', c') \<Longrightarrow>
     resolve c' = resolve c \<and> cache_size_ok c' = cache_size_ok c \<and>
     ids' = filter (\<lambda>k. resolve c k \<noteq> None) ids"
proof (induction ids arbitrary: c ids')
  case Nil
  then show ?case by simp
next
  case (Cons k ids)
  from Cons.prems obtain v c1 rest where
    g: "LogClusterCache_Get c k = Inr (v, c1)" and
    l: "liveClusterIDs c1 ids = Inr (rest, c')" and
    i: "ids' = (if v \<noteq> None then k # rest else rest)"
    by (auto split: sum.splits prod.splits)
  from Cons.IH [OF l] Get_Inr [OF g] Get_size_ok [OF g] i show ?case by auto
qed

lemma liveClusterIDs_Inl:
  "liveClusterIDs c ids = Inl e \<Longrightarrow> e = PanicNilCache \<and> c = None"
proof (induction ids arbitrary: c)
  case Nil
  then show ?case by simp
next
  case (Cons k ids)
  show ?case
  proof (cases "LogClusterCache_Get c k")
    case (Inl e')
    with Cons.prems Get_Inl [OF Inl] show ?thesis by simp
  next
    case (Inr r)
    obtain v c1 where r: "r = (v, c1)" by (cases r)
    with Cons.prems Inr have "liveClusterIDs c1 ids = Inl e"
      by (auto split: sum.splits prod.splits)
    from Cons.IH [OF this] Get_Inr [OF Inr [unfolded r]] show ?thesis by simp
  qed
qed

lemma ids_of_unfold: "ids_of n = set (clusterIDs n) \<union> (\<Union>e \<in> set (keyToChildNode n). ids_of (snd e))"
  by (cases n) simp

lemma ids_of_child: "map_of (keyToChildNode n) k = Some child \<Longrightarrow> ids_of child \<subseteq> ids_of n"
  by (subst (2) ids_of_unfold) (auto dest!: map_of_SomeD)

lemma clusterIDs_subset: "set (clusterIDs n) \<subseteq> ids_of n"
  by (cases n) simp

lemma map_of_append_new: "map_of al k = None \<Longrightarrow> map_of (al @ [(k, v)]) k = Some v"
  by (induction al) auto

lemma map_of_append_other: "k' \<noteq> k \<Longrightarrow> map_of (al @ [(k, v)]) k' = map_of al k'"
  by (induction al) auto

lemma ids_of_createNode [simp]: "ids_of createNode = {}"
  by (simp add: createNode_def)

lemma treeSearch_loop_ids:
  "treeSearch_loop cfg node depth tc toks = Some leaf \<Longrightarrow> set (clusterIDs leaf) \<subseteq> ids_of node"
proof (induction toks arbitrary: node depth)
  case Nil
  then show ?case using clusterIDs_subset [of node] by auto
next
  case (Cons t toks)
  then show ?case
    using clusterIDs_subset [of node]
    by (auto split: if_splits option.splits dest!: Cons.IH ids_of_child)
qed

lemma set_update_subset: "set (AList.update k v al) \<subseteq> insert (k, v) (set al)"
  by (induction al) auto

lemma ids_of_update:
  "ids_of (Node (AList.update k v ch) ids) \<subseteq> ids_of (Node ch ids) \<union> ids_of v"
  using set_update_subset [of k v ch] by fastforce

lemma chooseChild_Inr:
  assumes "chooseChild isNumber cfg n token = Inr (key, ch)"
  shows "set ch \<subseteq> insert (key, createNode) (set (keyToChildNode n))" "map_of ch key \<noteq> None"
  using assms
  by (auto simp: chooseChild_def Let_def map_of_append_new simp del: map_of_append
      split: option.splits if_splits)

lemma chooseChild_Inl: "chooseChild isNumber cfg n token = Inl e \<Longrightarrow> e = PanicNilNode"
  by (auto simp: chooseChild_def Let_def split: option.splits if_splits)

lemma addSeq_loop_Inr:
  "addSeqToPrefixTree_loop isNumber cfg c cid tc depth toks node = Inr (node', c') \<Longrightarrow>
     ids_of node' \<subseteq> insert cid (ids_of node) \<and> resolve c' = resolve c \<and>
     cache_size_ok c' = cache_size_ok c"
proof (induction toks arbitrary: node node' depth)
  case Nil
  then show ?case by auto
next
  case (Cons t toks)
  show ?case
  proof (cases "depth \<ge> maxNodeDepth cfg \<or> depth \<ge> tc")
    case True
    with Cons.prems obtain ids' where
      l: "liveClusterIDs c (clusterIDs node) = Inr (ids', c')" and
      n: "node' = Node (keyToChildNode node) (ids' @ [cid])"
      by (auto split: sum.splits prod.splits)
    from liveClusterIDs_Inr [OF l] n show ?thesis
      by (auto simp: ids_of_unfold [of node])
  next
    case False
    with Cons.prems obtain key ch child child' where
      cc: "chooseChild isNumber cfg node t = Inr (key, ch)" and
      m: "map_of ch key = Some child" and
      r: "addSeqToPrefixTree_loop isNumber cfg c cid tc (depth + 1) toks child = Inr (child', c')" and
      n: "node' = Node (AList.update key child' ch) (clusterIDs node)"
      by (auto split: sum.splits prod.splits option.splits)
    note ih = Cons.IH [OF r]
    have ch: "ids_of (Node ch (clusterIDs node)) \<subseteq> ids_of node"
      using chooseChild_Inr(1) [OF cc] by (subst (2) ids_of_unfold) auto
    have cd: "ids_of child \<subseteq> ids_of (Node ch (clusterIDs node))"
      using ids_of_child [of "Node ch (clusterIDs node)" key child] m by simp
    have "ids_of node' \<subseteq> insert cid (ids_of node)"
      unfolding n using ih ch cd ids_of_update [of key child' ch "clusterIDs node"] by blast
    with ih show ?thesis by blast
  qed
qed

lemma addSeq_loop_Inl:
  "addSeqToPrefixTree_loop isNumber cfg c cid tc depth toks node = Inl e \<Longrightarrow>
     (e = PanicNilCache \<and> c = None) \<or> e = PanicNilNode"
proof (induction toks arbitrary: node depth)
  case Nil
  then show ?case by simp
next
  case (Cons t toks)
  then show ?case
    by (auto split: if_splits sum.splits prod.splits option.splits
        dest: liveClusterIDs_Inl chooseChild_Inl)
qed

lemma addSeqToPrefixTree_Inr:
  assumes "addSeqToPrefixTree isNumber cfg c rt cluster = Inr (rt', c')"
  shows "resolve c' = resolve c" "cache_size_ok c' = cache_size_ok c"
    "\<exists>sub'. set (keyToChildNode rt') \<subseteq>
        insert (Itoa (length (Tokens cluster)), sub') (set (keyToChildNode rt)) \<and>
        ids_of sub' \<subseteq> insert (idC cluster)
          (case map_of (keyToChildNode rt) (Itoa (length (Tokens cluster))) of
             None \<Rightarrow> {} | Some n \<Rightarrow> ids_of n)"
proof -
  let ?key = "Itoa (length (Tokens cluster))"
  let ?first = "case map_of (keyToChildNode rt) ?key of Some n \<Rightarrow> n | None \<Rightarrow> createNode"
  have first: "ids_of ?first = (case map_of (keyToChildNode rt) ?key of
             None \<Rightarrow> {} | Some n \<Rightarrow> ids_of n)"
    by (auto split: option.splits)
  show "resolve c' = resolve c" "cache_size_ok c' = cache_size_ok c"
    using assms
    by (auto simp: addSeqToPrefixTree_def Let_def split: if_splits sum.splits prod.splits
        dest: addSeq_loop_Inr)
  show "\<exists>sub'. set (keyToChildNode rt') \<subseteq> insert (?key, sub') (set (keyToChildNode rt)) \<and>
        ids_of sub' \<subseteq> insert (idC cluster)
          (case map_of (keyToChildNode rt) ?key of None \<Rightarrow> {} | Some n \<Rightarrow> ids_of n)"
  proof (cases "Tokens cluster = []")
    case True
    with assms have
      "rt' = Node (AList.update ?key (Node (keyToChildNode ?first) (clusterIDs ?first @ [idC cluster]))
                      (keyToChildNode rt)) (clusterIDs rt)"
      by (simp add: addSeqToPrefixTree_def Let_def)
    moreover have "ids_of (Node (keyToChildNode ?first) (clusterIDs ?first @ [idC cluster]))
        \<subseteq> insert (idC cluster) (ids_of ?first)"
      by (subst (2) ids_of_unfold) auto
    ultimately show ?thesis
      using set_update_subset [of ?key _ "keyToChildNode rt"] first
      by (intro exI [of _ "Node (keyToChildNode ?first) (clusterIDs ?first @ [idC cluster])"]) auto
  next
    case False
    with assms obtain sub' where
      l: "addSeqToPrefixTree_loop isNumber cfg c (idC cluster) (int (length (Tokens cluster))) 1
            (Tokens cluster) ?first = Inr (sub', c')" and
      r: "rt' = Node (AList.update ?key sub' (keyToChildNode rt)) (clusterIDs rt)"
      by (auto simp: addSeqToPrefixTree_def Let_def split: sum.splits prod.splits)
    from addSeq_loop_Inr [OF l] r first set_update_subset [of ?key sub' "keyToChildNode rt"]
    show ?thesis by (intro exI [of _ sub']) auto
  qed
qed

lemma addSeqToPrefixTree_Inl:
  "addSeqToPrefixTree isNumber cfg c rt cluster = Inl e \<Longrightarrow>
     (e = PanicNilCache \<and> c = None) \<or> e = PanicNilNode"
  by (auto simp: addSeqToPrefixTree_def Let_def split: if_splits sum.splits prod.splits
      dest: addSeq_loop_Inl)

lemma Split_not_Nil: "Split s sep \<noteq> []"
  by (cases s) (auto split: list.splits)

lemma tokens_not_Nil: "getContentAsTokens cfg content \<noteq> []"
  by (simp add: getContentAsTokens_def Split_not_Nil)

lemma treeSearch_Inr:
  assumes "treeSearch cfg c rt tokens th inc = Inr (r, c')" and "tokens \<noteq> []"
  shows "resolve c' = resolve c" "cache_size_ok c' = cache_size_ok c"
    "r = Some cl \<Longrightarrow>
       \<exists>sub k. map_of (keyToChildNode rt) (Itoa (length tokens)) = Some sub \<and> k \<in> ids_of sub \<and>
         resolve c k = Some cl \<and> length (Tokens cl) = length tokens"
proof -
  show "resolve c' = resolve c" "cache_size_ok c' = cache_size_ok c"
    using assms
    by (auto simp: treeSearch_def Let_def split: option.splits dest: fastMatch_Inr)
  show "\<exists>sub k. map_of (keyToChildNode rt) (Itoa (length tokens)) = Some sub \<and> k \<in> ids_of sub \<and>
         resolve c k = Some cl \<and> length (Tokens cl) = length tokens" if "r = Some cl"
  proof -
    from assms that obtain sub leaf where
      m: "map_of (keyToChildNode rt) (Itoa (length tokens)) = Some sub" and
      l: "treeSearch_loop cfg sub 1 (int (length tokens)) tokens = Some leaf" and
      f: "fastMatch cfg c (clusterIDs leaf) tokens th inc = Inr (Some cl, c')"
      by (auto simp: treeSearch_def Let_def split: option.splits)
    from fastMatch_Inr(3) [OF f] treeSearch_loop_ids [OF l] m show ?thesis by blast
  qed
qed

lemma treeSearch_Inl:
  assumes "treeSearch cfg c rt tokens th inc = Inl e" and "tokens \<noteq> []"
  shows "(e = PanicNilCache \<and> c = None) \<or>
         (e = PanicSeqLength \<and>
           (\<exists>sub k cl. map_of (keyToChildNode rt) (Itoa (length tokens)) = Some sub \<and>
              k \<in> ids_of sub \<and> resolve c k = Some cl \<and> length (Tokens cl) \<noteq> length tokens))"
proof -
  from assms obtain sub leaf where
    m: "map_of (keyToChildNode rt) (Itoa (length tokens)) = Some sub" and
    l: "treeSearch_loop cfg sub 1 (int (length tokens)) tokens = Some leaf" and
    f: "fastMatch cfg c (clusterIDs leaf) tokens th inc = Inl e"
    by (auto simp: treeSearch_def Let_def split: option.splits)
  from fastMatch_Inl [OF f] treeSearch_loop_ids [OF l] m show ?thesis by blast
qed

lemma Train_cases:
  assumes "Train isNumber d content ts = Inr (c, d')"
  obtains
    (miss) c1 c2 c3 rt' where
      "treeSearch (config d) (idToCluster d) (rootNode d) (getContentAsTokens (config d) content)
         (SimTh (config d)) False = Inr (None, c1)"
      "c = \<lparr>idC = clustersCounter d + 1, Size = 1,
            Tokens = getContentAsTokens (config d) content,
            Samples = [content], Volume = initVolume ts\<rparr>"
      "LogClusterCache_Set c1 (clustersCounter d + 1) c = Inr c2"
      "addSeqToPrefixTree isNumber (config d) c2 (rootNode d) c = Inr (rt', c3)"
      "d' = d\<lparr>rootNode := rt', idToCluster := c3, clustersCounter := clustersCounter d + 1\<rparr>"
  | (hit) m c1 tmpl v c2 where
      "treeSearch (config d) (idToCluster d) (rootNode d) (getContentAsTokens (config d) content)
         (SimTh (config d)) False = Inr (Some m, c1)"
      "createTemplate (config d) (getContentAsTokens (config d) content) (Tokens m) = Inr tmpl"
      "LogCluster_append (m\<lparr>Tokens := tmpl, Size := Size m + 1\<rparr>) content ts = Inr c"
      "LogClusterCache_Get (assignCluster c1 (idC m) c) (idC c) = Inr (v, c2)"
      "d' = d\<lparr>idToCluster := c2\<rparr>"
  using assms
  by (auto simp: Train_def Let_def split: sum.splits prod.splits option.splits)

lemma Volume_Add_Inr:
  "Volume_Add x ts = Inr x' \<Longrightarrow> Values x' \<noteq> []"
  by (auto simp: Volume_Add_def Let_def bump_def split: if_splits)

lemma Volume_Add_Inl: "Volume_Add x ts = Inl e \<Longrightarrow> e = PanicVolumeIndex \<and> Values x = []"
  by (auto simp: Volume_Add_def Let_def split: if_splits)

lemma LogCluster_append_Inr:
  "LogCluster_append c content ts = Inr c' \<Longrightarrow>
     idC c' = idC c \<and> Tokens c' = Tokens c \<and> Size c' = Size c \<and> Values (Volume c') \<noteq> []"
  by (auto simp: LogCluster_append_def split: sum.splits if_splits dest: Volume_Add_Inr)

lemma LogCluster_append_Inl:
  "LogCluster_append c content ts = Inl e \<Longrightarrow> e = PanicVolumeIndex \<and> Values (Volume c) = []"
  by (auto simp: LogCluster_append_def split: sum.splits dest: Volume_Add_Inl)

lemma generalizes_refl [simp]: "generalizes p t t"
  by (simp add: generalizes_def list_all2_same)

lemma generalizes_trans:
  "generalizes p t0 t1 \<Longrightarrow> generalizes p t1 t2 \<Longrightarrow> generalizes p t0 t2"
  unfolding generalizes_def list_all2_conv_all_nth by auto

lemma generalizes_length: "generalizes p t0 t1 \<Longrightarrow> length t1 = length t0"
  by (simp add: generalizes_def list_all2_lengthD)

lemma generalizes_nth:
  "generalizes p t0 t1 \<Longrightarrow> i < length t0 \<Longrightarrow> t0 ! i = p \<Longrightarrow> t1 ! i = p"
  by (simp add: generalizes_def list_all2_conv_all_nth)

lemma createTemplate_generalizes:
  "createTemplate cfg seq1 seq2 = Inr r \<Longrightarrow> generalizes (ParamString cfg) seq2 r"
  by (auto simp: createTemplate_def generalizes_def list_all2_conv_all_nth split: if_splits)

lemma peek_simps [simp]:
  "peek (d\<lparr>idToCluster := c\<rparr>) = resolve c"
  "peek (d\<lparr>rootNode := rt, idToCluster := c, clustersCounter := n\<rparr>) = resolve c"
  by (auto simp: peek_def intro!: ext)

lemma Train_step:
  assumes inv: "cache_inv d" and t: "Train isNumber d content ts = Inr (c, d')"
  shows "cache_inv d'"
    and "config d' = config d"
    and "clustersCounter d \<le> clustersCounter d'"
    and "peek d' (idC c) = Some c"
    and "length (Tokens c) = length (getContentAsTokens (config d) content)"
    and "(idC c = clustersCounter d + 1 \<and> Size c = 1 \<and>
          Tokens c = getContentAsTokens (config d) content) \<or>
         (\<exists>c0. peek d (idC c) = Some c0 \<and> Size c = Size c0 + 1 \<and>
            generalizes (ParamString (config d)) (Tokens c0) (Tokens c))"
    and "\<And>k x. k \<noteq> idC c \<Longrightarrow> peek d' k = Some x \<Longrightarrow> peek d k = Some x"
proof -
  let ?tokens = "getContentAsTokens (config d) content"
  have all: "cache_inv d' \<and> config d' = config d \<and> clustersCounter d \<le> clustersCounter d' \<and>
    peek d' (idC c) = Some c \<and> length (Tokens c) = length ?tokens \<and>
    ((idC c = clustersCounter d + 1 \<and> Size c = 1 \<and> Tokens c = ?tokens) \<or>
     (\<exists>c0. peek d (idC c) = Some c0 \<and> Size c = Size c0 + 1 \<and>
        generalizes (ParamString (config d)) (Tokens c0) (Tokens c))) \<and>
    (\<forall>k x. k \<noteq> idC c \<longrightarrow> peek d' k = Some x \<longrightarrow> peek d k = Some x)"
    using t
  proof (cases rule: Train_cases)
    case (miss c1 c2 c3 rt')
    note ts = treeSearch_Inr(1,2) [OF miss(1) tokens_not_Nil]
    note st = Set_Inr [OF miss(3)]
    note ad = addSeqToPrefixTree_Inr(1,2) [OF miss(4)]
    have ok: "cache_size_ok c1" using inv ts by (simp add: cache_inv_def)
    have id: "idC c = clustersCounter d + 1" using miss(2) by simp
    have p1: "peek d' (idC c) = Some c"
      using miss(5) ad st(3) [OF ok] id by simp
    have p2: "peek d k = Some x" if "k \<noteq> idC c" "peek d' k = Some x" for k x
      using that miss(5) ad st(4) [of k x] ts id
      by (simp add: peek_def)
    have "cache_inv d'"
      unfolding cache_inv_def
    proof (intro conjI allI impI)
      show "cache_size_ok (idToCluster d')" using miss(5) ad st(2) ok by simp
    next
      fix k x assume a: "peek d' k = Some x"
      show "idC x = k" "k \<le> clustersCounter d'" "Values (Volume x) \<noteq> []"
      proof -
        have "idC x = k \<and> k \<le> clustersCounter d' \<and> Values (Volume x) \<noteq> []"
        proof (cases "k = idC c")
          case True
          with a p1 have "x = c" by simp
          with True miss(2,5) show ?thesis by (simp add: initVolume_def)
        next
          case False
          from p2 [OF False a] inv have "idC x = k \<and> k \<le> clustersCounter d \<and> Values (Volume x) \<noteq> []"
            unfolding cache_inv_def by blast
          with miss(5) show ?thesis by simp
        qed
        then show "idC x = k" "k \<le> clustersCounter d'" "Values (Volume x) \<noteq> []" by auto
      qed
    qed
    with p1 p2 id miss(2,5) show ?thesis by auto
  next
    case (hit m c1 tmpl v c2)
    note ts = treeSearch_Inr [OF hit(1) tokens_not_Nil]
    from ts(3) [of m] obtain k where k: "resolve c1 k = Some m" "length (Tokens m) = length ?tokens"
      using ts(1) by auto
    have pm: "peek d k = Some m" using k ts(1) by (simp add: peek_def)
    with inv have idm: "idC m = k" "k \<le> clustersCounter d" by (auto simp: cache_inv_def)
    note ap = LogCluster_append_Inr [OF hit(3)]
    have idc: "idC c = k" using ap idm by simp
    note g = Get_Inr [OF hit(4)] Get_size_ok [OF hit(4)]
    have r: "resolve c2 k' = (if k' = k then Some c else peek d k')" for k'
      using g(1) k(1) idm ts(1) by (simp add: resolve_assignCluster peek_def)
    have tm: "Tokens c = tmpl" using ap by simp
    have len: "length (Tokens c) = length ?tokens"
      using createTemplate_Inr(1,2) [OF hit(2)] tm by simp
    have gen: "generalizes (ParamString (config d)) (Tokens m) (Tokens c)"
      using createTemplate_generalizes [OF hit(2)] tm by simp
    have "cache_inv d'"
      unfolding cache_inv_def
    proof (intro conjI allI impI)
      show "cache_size_ok (idToCluster d')"
        using hit(5) g(2) ts(2) inv by (simp add: cache_inv_def)
    next
      fix k' x assume a: "peek d' k' = Some x"
      have "idC x = k' \<and> k' \<le> clustersCounter d' \<and> Values (Volume x) \<noteq> []"
      proof (cases "k' = k")
        case True
        with a r hit(5) have "x = c" by simp
        with True idc idm ap hit(5) show ?thesis by simp
      next
        case False
        with a r hit(5) have "peek d k' = Some x" by simp
        with inv have "idC x = k' \<and> k' \<le> clustersCounter d \<and> Values (Volume x) \<noteq> []"
          unfolding cache_inv_def by blast
        with hit(5) show ?thesis by simp
      qed
      then show "idC x = k'" "k' \<le> clustersCounter d'" "Values (Volume x) \<noteq> []" by auto
    qed
    moreover have "peek d' (idC c) = Some c" using r idc hit(5) by simp
    moreover have "\<forall>k' x. k' \<noteq> idC c \<longrightarrow> peek d' k' = Some x \<longrightarrow> peek d k' = Some x"
      using r idc hit(5) by simp
    moreover have "\<exists>c0. peek d (idC c) = Some c0 \<and> Size c = Size c0 + 1 \<and>
        generalizes (ParamString (config d)) (Tokens c0) (Tokens c)"
      using pm idc gen ap by auto
    ultimately show ?thesis using hit(5) len by auto
  qed
  from all show "cache_inv d'" "config d' = config d" "clustersCounter d \<le> clustersCounter d'"
    "peek d' (idC c) = Some c" "length (Tokens c) = length ?tokens"
    "(idC c = clustersCounter d + 1 \<and> Size c = 1 \<and> Tokens c = ?tokens) \<or>
     (\<exists>c0. peek d (idC c) = Some c0 \<and> Size c = Size c0 + 1 \<and>
        generalizes (ParamString (config d)) (Tokens c0) (Tokens c))"
    by blast+
  from all show "\<And>k x. k \<noteq> idC c \<Longrightarrow> peek d' k = Some x \<Longrightarrow> peek d k = Some x" by blast
qed

lemma digit_inj: "a < 10 \<Longrightarrow> b < 10 \<Longrightarrow> digit a = digit b \<Longrightarrow> a = b"
proof -
  assume a: "a < 10" "b < 10" "digit a = digit b"
  then have "of_char (char_of (48 + a) :: char) = (of_char (char_of (48 + b) :: char) :: nat)"
    by (simp add: digit_def)
  with a show ?thesis by simp
qed

lemma Itoa_not_Nil: "Itoa n \<noteq> []"
  by (subst Itoa.simps) simp

lemma Itoa_inj: "Itoa m = Itoa n \<Longrightarrow> m = n"
proof (induction m arbitrary: n rule: Itoa.induct)
  case (1 m)
  show ?case
  proof (cases "m < 10")
    case True
    note m = this
    show ?thesis
    proof (cases "n < 10")
      case True
      with m "1.prems" show ?thesis
        by (subst (asm) Itoa.simps, subst (asm) (2) Itoa.simps) (simp add: digit_inj)
    next
      case False
      with m "1.prems" Itoa_not_Nil [of "n div 10"] show ?thesis
        by (subst (asm) Itoa.simps, subst (asm) (2) Itoa.simps) simp
    qed
  next
    case False
    note m = this
    show ?thesis
    proof (cases "n < 10")
      case True
      with m "1.prems" Itoa_not_Nil [of "m div 10"] show ?thesis
        by (subst (asm) Itoa.simps, subst (asm) (2) Itoa.simps) simp
    next
      case False
      with m "1.prems" have "Itoa (m div 10) = Itoa (n div 10)" "digit (m mod 10) = digit (n mod 10)"
        by (subst (asm) Itoa.simps, subst (asm) (2) Itoa.simps, simp)+
      with "1.IH" [OF m] have "m div 10 = n div 10" "m mod 10 = n mod 10"
        by (auto intro: digit_inj)
      then show ?thesis by (metis div_mult_mod_eq)
    qed
  qed
qed

lemma cache_size_ok_not_None: "cache_size_ok c \<Longrightarrow> c \<noteq> None"
  by (cases c) auto

lemma Match_Inr:
  assumes "Match d content = Inr (r, d')"
  shows "peek d' = peek d" "config d' = config d" "rootNode d' = rootNode d"
    "clustersCounter d' = clustersCounter d"
    "cache_size_ok (idToCluster d') = cache_size_ok (idToCluster d)"
    "r = Some c \<Longrightarrow> \<exists>k. peek d k = Some c \<and>
        length (Tokens c) = length (getContentAsTokens (config d) content)"
proof -
  from assms obtain c' where
    t: "treeSearch (config d) (idToCluster d) (rootNode d)
          (getContentAsTokens (config d) content) 1 True = Inr (r, c')" and
    d': "d' = d\<lparr>idToCluster := c'\<rparr>"
    by (auto simp: Match_def split: sum.splits prod.splits)
  note ts = treeSearch_Inr [OF t tokens_not_Nil]
  from ts(1,2) d' show "peek d' = peek d" "config d' = config d" "rootNode d' = rootNode d"
    "clustersCounter d' = clustersCounter d"
    "cache_size_ok (idToCluster d') = cache_size_ok (idToCluster d)"
    by (auto simp: peek_def intro!: ext)
  show "\<exists>k. peek d k = Some c \<and>
        length (Tokens c) = length (getContentAsTokens (config d) content)" if "r = Some c"
    using ts(3) [OF that] by (auto simp: peek_def)
qed

lemma Match_inv:
  assumes "Match d content = Inr (r, d')"
  shows "cache_inv d \<Longrightarrow> cache_inv d'" "tree_inv d \<Longrightarrow> tree_inv d'"
  using Match_Inr(1-5) [OF assms] by (simp_all add: cache_inv_def tree_inv_def)

lemma Match_Inl:
  assumes "Match d content = Inl e" "cache_inv d" "tree_inv d"
  shows False
proof -
  let ?tokens = "getContentAsTokens (config d) content"
  from assms(1) have t: "treeSearch (config d) (idToCluster d) (rootNode d) ?tokens 1 True = Inl e"
    by (auto simp: Match_def split: sum.splits prod.splits)
  from treeSearch_Inl [OF t tokens_not_Nil] assms(2)
  obtain sub k cl where s: "map_of (keyToChildNode (rootNode d)) (Itoa (length ?tokens)) = Some sub"
    "k \<in> ids_of sub" "peek d k = Some cl" "length (Tokens cl) \<noteq> length ?tokens"
    by (auto simp: cache_inv_def peek_def)
  from map_of_SomeD [OF s(1)] assms(3) s(2,3) obtain n where
    "Itoa (length ?tokens) = Itoa n" "length (Tokens cl) = n"
    by (fastforce simp: tree_inv_def)
  with s(4) Itoa_inj [of "length ?tokens" n] show False by simp
qed

lemma Train_Inl:
  assumes "Train isNumber d content ts = Inl e" "cache_inv d" "tree_inv d"
  shows "e = PanicNilNode"
proof -
  let ?tokens = "getContentAsTokens (config d) content"
  let ?t = "treeSearch (config d) (idToCluster d) (rootNode d) ?tokens (SimTh (config d)) False"
  have ok: "cache_size_ok (idToCluster d)" using assms(2) by (simp add: cache_inv_def)
  have len: "length (Tokens cl) = length ?tokens"
    if "map_of (keyToChildNode (rootNode d)) (Itoa (length ?tokens)) = Some sub"
      "k \<in> ids_of sub" "peek d k = Some cl" for sub k cl
  proof -
    from map_of_SomeD [OF that(1)] assms(3) that(2,3) obtain n where
      "Itoa (length ?tokens) = Itoa n" "length (Tokens cl) = n"
      by (fastforce simp: tree_inv_def)
    with Itoa_inj [of "length ?tokens" n] show ?thesis by simp
  qed
  show ?thesis
  proof (cases ?t)
    case (Inl e')
    from treeSearch_Inl [OF Inl tokens_not_Nil] ok len show ?thesis
      by (auto simp: peek_def)
  next
    case (Inr q)
    obtain r c1 where q: "q = (r, c1)" by (cases q)
    note ts = treeSearch_Inr [OF Inr [unfolded q] tokens_not_Nil]
    have ok1: "cache_size_ok c1" using ts(2) ok by simp
    then have c1: "c1 \<noteq> None" by (rule cache_size_ok_not_None)
    show ?thesis
    proof (cases r)
      case None
      let ?c = "\<lparr>idC = clustersCounter d + 1, Size = 1, Tokens = ?tokens,
                 Samples = [content], Volume = initVolume ts\<rparr>"
      from Set_total [OF c1] obtain c2 where
        s: "LogClusterCache_Set c1 (clustersCounter d + 1) ?c = Inr c2" by blast
      from Set_Inr(2) [OF s] ok1 have "c2 \<noteq> None" by (simp add: cache_size_ok_not_None)
      with assms(1) Inr q None s show ?thesis
        by (auto simp: Train_def Let_def split: sum.splits prod.splits
            dest: addSeqToPrefixTree_Inl)
    next
      case (Some m)
      from ts(3) [OF Some] ts(1) obtain k where
        k: "peek d k = Some m" "length (Tokens m) = length ?tokens" by (auto simp: peek_def)
      with assms(2) have v: "Values (Volume m) \<noteq> []" by (auto simp: cache_inv_def)
      have "\<exists>tmpl. createTemplate (config d) ?tokens (Tokens m) = Inr tmpl"
        using k(2) by (simp add: createTemplate_def)
      then obtain tmpl where tm: "createTemplate (config d) ?tokens (Tokens m) = Inr tmpl" ..
      have "\<exists>c. LogCluster_append (m\<lparr>Tokens := tmpl, Size := Size m + 1\<rparr>) content ts = Inr c"
        using v
        by (cases "LogCluster_append (m\<lparr>Tokens := tmpl, Size := Size m + 1\<rparr>) content ts")
           (auto dest: LogCluster_append_Inl)
      then obtain c where ap: "LogCluster_append (m\<lparr>Tokens := tmpl, Size := Size m + 1\<rparr>) content ts = Inr c" ..
      have "assignCluster c1 (idC m) c \<noteq> None" using c1 by simp
      from Get_total [OF this, of "idC c"] assms(1) Inr q Some tm ap show ?thesis
        by (auto simp: Train_def Let_def)
    qed
  qed
qed

lemma Train_tree_inv:
  assumes inv: "cache_inv d" and tinv: "tree_inv d"
    and t: "Train isNumber d content ts = Inr (c, d')"
  shows "tree_inv d'"
proof -
  let ?tokens = "getContentAsTokens (config d) content"
  note st = Train_step [OF inv t]
  have old: "\<exists>x0. peek d k = Some x0 \<and> length (Tokens x) = length (Tokens x0)"
    if "k \<le> clustersCounter d" "peek d' k = Some x" for k x
  proof (cases "k = idC c")
    case True
    with that st(4) have "x = c" by simp
    with st(6) True that(1) show ?thesis by (auto dest: generalizes_length)
  next
    case False
    from st(7) [OF False that(2)] show ?thesis by simp
  qed
  have keep: "\<exists>n. fst e = Itoa n \<and>
         (\<forall>k \<in> ids_of (snd e). k \<le> clustersCounter d' \<and>
            (\<forall>x. peek d' k = Some x \<longrightarrow> length (Tokens x) = n))"
    if e: "e \<in> set (keyToChildNode (rootNode d))" for e
  proof -
    from tinv e obtain n where n: "fst e = Itoa n"
      "\<forall>k \<in> ids_of (snd e). k \<le> clustersCounter d \<and>
            (\<forall>x. peek d k = Some x \<longrightarrow> length (Tokens x) = n)"
      unfolding tree_inv_def by blast
    have "k \<le> clustersCounter d' \<and> (\<forall>x. peek d' k = Some x \<longrightarrow> length (Tokens x) = n)"
      if k: "k \<in> ids_of (snd e)" for k
    proof (intro conjI allI impI)
      from n(2) k st(3) show "k \<le> clustersCounter d'" by force
    next
      fix x assume "peek d' k = Some x"
      with old [of k x] n(2) k show "length (Tokens x) = n" by force
    qed
    with n(1) show ?thesis by blast
  qed
  from t show ?thesis
  proof (cases rule: Train_cases)
    case (miss c1 c2 c3 rt')
    from addSeqToPrefixTree_Inr(3) [OF miss(4)] miss(2) obtain sub' where
      sub: "set (keyToChildNode rt') \<subseteq> insert (Itoa (length ?tokens), sub') (set (keyToChildNode (rootNode d)))"
      "ids_of sub' \<subseteq> insert (idC c)
          (case map_of (keyToChildNode (rootNode d)) (Itoa (length ?tokens)) of
             None \<Rightarrow> {} | Some n \<Rightarrow> ids_of n)"
      by auto
    have cnt: "clustersCounter d' = clustersCounter d + 1" "idC c = clustersCounter d + 1"
      "rootNode d' = rt'"
      using miss(2,5) by simp_all
    have new: "k \<le> clustersCounter d' \<and> (\<forall>x. peek d' k = Some x \<longrightarrow> length (Tokens x) = length ?tokens)"
      if k: "k \<in> ids_of sub'" for k
    proof (cases "k = idC c")
      case True
      with st(4,5) cnt show ?thesis by simp
    next
      case False
      with k sub(2) obtain sub where
        m: "map_of (keyToChildNode (rootNode d)) (Itoa (length ?tokens)) = Some sub" "k \<in> ids_of sub"
        by (auto split: option.splits)
      from keep [OF map_of_SomeD [OF m(1)]] m(2) obtain n where
        "Itoa (length ?tokens) = Itoa n"
        "k \<le> clustersCounter d' \<and> (\<forall>x. peek d' k = Some x \<longrightarrow> length (Tokens x) = n)"
        by force
      with Itoa_inj [of "length ?tokens" n] show ?thesis by simp
    qed
    show ?thesis
      unfolding tree_inv_def
    proof
      fix e assume "e \<in> set (keyToChildNode (rootNode d'))"
      with sub(1) cnt(3) consider "e = (Itoa (length ?tokens), sub')"
        | "e \<in> set (keyToChildNode (rootNode d))" by auto
      then show "\<exists>n. fst e = Itoa n \<and>
         (\<forall>k \<in> ids_of (snd e). k \<le> clustersCounter d' \<and>
            (\<forall>x. peek d' k = Some x \<longrightarrow> length (Tokens x) = n))"
      proof cases
        case 1
        with new show ?thesis by auto
      next
        case 2
        then show ?thesis by (rule keep)
      qed
    qed
  next
    case (hit m c1 tmpl v c2)
    then have "rootNode d' = rootNode d" by simp
    with keep show ?thesis unfolding tree_inv_def by simp
  qed
qed

lemma New_inv:
  assumes "New cfg = Inr d" "0 \<le> MaxClusters cfg"
  shows "cache_inv d" "tree_inv d"
  using assms
  by (auto simp: New_def cache_inv_def tree_inv_def createNode_def createLogClusterCache_def
      NewLRU_def MaxInt_def peek_def split: if_splits)

lemma New_broken:
  assumes "New cfg = Inr d" "MaxClusters cfg < 0"
  shows "idToCluster d = None \<and> keyToChildNode (rootNode d) = []"
  using assms
  by (auto simp: New_def createNode_def createLogClusterCache_def NewLRU_def split: if_splits)

lemma New_config:
  "New cfg = Inr d \<Longrightarrow> config d = cfg\<lparr>maxNodeDepth := LogClusterDepth cfg - 2\<rparr> \<and>
     3 \<le> LogClusterDepth cfg \<and> clustersCounter d = 0 \<and> rootNode d = createNode"
  by (auto simp: New_def split: if_splits)

text \<open>An engine with a nil cache: \<open>Match\<close> finds nothing and \<open>Train\<close> panics.\<close>

lemma broken_Match:
  "idToCluster d = None \<Longrightarrow> keyToChildNode (rootNode d) = [] \<Longrightarrow>
     Match d content = Inr (None, d)"
  by (simp add: Match_def treeSearch_def Let_def)

lemma broken_Train:
  "idToCluster d = None \<Longrightarrow> keyToChildNode (rootNode d) = [] \<Longrightarrow>
     Train isNumber d content ts = Inl PanicNilCache"
  by (simp add: Train_def treeSearch_def Let_def LogClusterCache_Set_def)

lemma broken_run:
  assumes "idToCluster d = None" "keyToChildNode (rootNode d) = []"
  shows "run isNumber d calls = Inl PanicNilCache \<or>
         run isNumber d calls = Inr (replicate (length calls) None, d)"
proof (induction calls)
  case Nil
  then show ?case by simp
next
  case (Cons a calls)
  then show ?case
    using assms by (cases a) (auto simp: broken_Match broken_Train)
qed

lemma callLine_simps [simp]:
  "callLine (TrainCall content ts) = content" "callLine (MatchCall content) = content"
  by (simp_all add: callLine_def)

lemma Train_step_ok:
  assumes "cache_inv d" "Train isNumber d content ts = Inr (c, d')"
  shows "step_ok d (TrainCall content ts) (Some c) d'"
proof -
  note st = Train_step [OF assms]
  have "clustersCounter d < idC c \<or>
         (\<exists>c0. peek d (idC c) = Some c0 \<and>
            generalizes (ParamString (config d)) (Tokens c0) (Tokens c))"
    using st(6) by auto
  moreover have "idC c = k \<or> peek d k = Some x" if "peek d' k = Some x" for k x
    using st(7) [of k x] that by blast
  ultimately show ?thesis
    unfolding step_ok_def using st(1-5) by auto
qed

lemma Match_step_ok:
  assumes "cache_inv d" "Match d content = Inr (r, d')"
  shows "step_ok d (MatchCall content) r d'"
proof -
  note m = Match_Inr [OF assms(2)]
  have "peek d' (idC c) = Some c \<and>
        length (Tokens c) = length (getContentAsTokens (config d) content) \<and>
        (\<exists>c0. peek d (idC c) = Some c0 \<and>
            generalizes (ParamString (config d)) (Tokens c0) (Tokens c))" if "r = Some c" for c
  proof -
    from m(6) [OF that] obtain k where k: "peek d k = Some c"
      "length (Tokens c) = length (getContentAsTokens (config d) content)" by blast
    with assms(1) have "idC c = k" by (auto simp: cache_inv_def)
    with k m(1) show ?thesis by auto
  qed
  with m(1-4) Match_inv(1) [OF assms(2,1)] show ?thesis
    unfolding step_ok_def by auto
qed

lemma run_history:
  assumes "cache_inv d" "run isNumber d calls = Inr (rs, d')"
  shows "cache_inv d' \<and> config d' = config d \<and> clustersCounter d \<le> clustersCounter d' \<and>
    length rs = length calls \<and>
    (\<forall>j cj. j < length rs \<longrightarrow> rs ! j = Some cj \<longrightarrow>
       length (Tokens cj) = length (getContentAsTokens (config d) (callLine (calls ! j))) \<and>
       (\<forall>c0. peek d (idC cj) = Some c0 \<longrightarrow>
          generalizes (ParamString (config d)) (Tokens c0) (Tokens cj)) \<and>
       (idC cj \<le> clustersCounter d \<longrightarrow> peek d (idC cj) \<noteq> None)) \<and>
    (\<forall>i j ci cj. i < j \<longrightarrow> j < length rs \<longrightarrow> rs ! i = Some ci \<longrightarrow> rs ! j = Some cj \<longrightarrow>
       idC ci = idC cj \<longrightarrow> generalizes (ParamString (config d)) (Tokens ci) (Tokens cj))"
  using assms
proof (induction calls arbitrary: d rs)
  case Nil
  then show ?case by simp
next
  case (Cons a calls)
  let ?p = "ParamString (config d)"
  from Cons.prems obtain r d1 rs' where
    s: "step_ok d a r d1" and r: "run isNumber d1 calls = Inr (rs', d')" and rs: "rs = r # rs'"
    by (cases a)
       (auto split: sum.splits prod.splits dest: Train_step_ok Match_step_ok)
  from s have inv1: "cache_inv d1" and cfg: "config d1 = config d"
    and cnt: "clustersCounter d \<le> clustersCounter d1"
    by (auto simp: step_ok_def)
  note ih = Cons.IH [OF inv1 r, unfolded cfg]
  from s have first: "peek d1 (idC c) = Some c"
      "length (Tokens c) = length (getContentAsTokens (config d) (callLine a))"
      "clustersCounter d < idC c \<or>
         (\<exists>c0. peek d (idC c) = Some c0 \<and> generalizes ?p (Tokens c0) (Tokens c))"
    if "r = Some c" for c
    using that by (auto simp: step_ok_def)
  from s have others: "(\<exists>c. r = Some c \<and> idC c = k) \<or> peek d k = Some x"
    if "peek d1 k = Some x" for k x
    using that unfolding step_ok_def by blast
  have keys: "k \<le> clustersCounter d" if "peek d k = Some x" for k x
    using Cons.prems(1) that by (auto simp: cache_inv_def)
  have B: "generalizes ?p (Tokens c0) (Tokens cj)"
    if j: "j < length rs" "rs ! j = Some cj" and p: "peek d (idC cj) = Some c0" for j cj c0
  proof (cases j)
    case 0
    with j rs have "r = Some cj" by simp
    from first(3) [OF this] keys [OF p] p show ?thesis by auto
  next
    case (Suc j')
    with j rs have j': "j' < length rs'" "rs' ! j' = Some cj" by auto
    from ih j' keys [OF p] cnt obtain x where x: "peek d1 (idC cj) = Some x"
      by fastforce
    with ih j' have g: "generalizes ?p (Tokens x) (Tokens cj)" by blast
    from others [OF x] show ?thesis
    proof
      assume "\<exists>c. r = Some c \<and> idC c = idC cj"
      then obtain c where c: "r = Some c" "idC c = idC cj" by blast
      with first(1) [OF c(1)] x have "x = c" by simp
      with first(3) [OF c(1)] c(2) keys [OF p] p g show ?thesis
        by (auto intro: generalizes_trans)
    next
      assume "peek d (idC cj) = Some x"
      with p g show ?thesis by simp
    qed
  qed
  have C: "peek d (idC cj) \<noteq> None"
    if j: "j < length rs" "rs ! j = Some cj" and le: "idC cj \<le> clustersCounter d" for j cj
  proof (cases j)
    case 0
    with j rs have "r = Some cj" by simp
    from first(3) [OF this] le show ?thesis by auto
  next
    case (Suc j')
    with j rs have j': "j' < length rs'" "rs' ! j' = Some cj" by auto
    from ih j' le cnt obtain x where x: "peek d1 (idC cj) = Some x"
      by fastforce
    from others [OF x] show ?thesis
    proof
      assume "\<exists>c. r = Some c \<and> idC c = idC cj"
      then obtain c where c: "r = Some c" "idC c = idC cj" by blast
      from first(3) [OF c(1)] c(2) le show ?thesis by auto
    next
      assume "peek d (idC cj) = Some x"
      then show ?thesis by simp
    qed
  qed
  have D: "length (Tokens cj) = length (getContentAsTokens (config d) (callLine ((a # calls) ! j)))"
    if j: "j < length rs" "rs ! j = Some cj" for j cj
  proof (cases j)
    case 0
    with j rs first(2) show ?thesis by simp
  next
    case (Suc j')
    with j rs ih show ?thesis by auto
  qed
  have A: "generalizes ?p (Tokens ci) (Tokens cj)"
    if ij: "i < j" "j < length rs" "rs ! i = Some ci" "rs ! j = Some cj" "idC ci = idC cj"
    for i j ci cj
  proof -
    from ij(1) obtain j' where j': "j = Suc j'" by (cases j) auto
    with ij rs have cj: "j' < length rs'" "rs' ! j' = Some cj" by auto
    show ?thesis
    proof (cases i)
      case 0
      with ij rs have "r = Some ci" by simp
      from first(1) [OF this] ij(5) have "peek d1 (idC cj) = Some ci" by simp
      with ih cj show ?thesis by blast
    next
      case (Suc i')
      with ij rs j' have "i' < j'" "rs' ! i' = Some ci" by auto
      with ih cj ij(5) show ?thesis by blast
    qed
  qed
  from ih cnt rs have "cache_inv d' \<and> config d' = config d \<and>
      clustersCounter d \<le> clustersCounter d' \<and> length rs = length (a # calls)"
    by auto
  with A B C D show ?case by blast
qed

lemma run_no_seq_panic:
  assumes "cache_inv d" "tree_inv d"
  shows "run isNumber d calls \<noteq> Inl PanicSeqLength"
  using assms
proof (induction calls arbitrary: d)
  case Nil
  then show ?case by simp
next
  case (Cons a calls)
  show ?case
  proof (cases a)
    case (TrainCall content ts)
    show ?thesis
    proof (cases "Train isNumber d content ts")
      case (Inl e)
      with Train_Inl [OF Inl Cons.prems] TrainCall show ?thesis by simp
    next
      case (Inr q)
      obtain c d1 where q: "q = (c, d1)" by (cases q)
      from Train_step(1) [OF Cons.prems(1) Inr [unfolded q]]
        Train_tree_inv [OF Cons.prems Inr [unfolded q]]
      have "run isNumber d1 calls \<noteq> Inl PanicSeqLength" by (rule Cons.IH)
      with TrainCall Inr q show ?thesis by (auto split: sum.splits)
    qed
  next
    case (MatchCall content)
    show ?thesis
    proof (cases "Match d content")
      case (Inl e)
      with Match_Inl [OF Inl Cons.prems] show ?thesis by simp
    next
      case (Inr q)
      obtain r d1 where q: "q = (r, d1)" by (cases q)
      from Match_inv [OF Inr [unfolded q]] Cons.prems
      have "run isNumber d1 calls \<noteq> Inl PanicSeqLength" by (intro Cons.IH)
      with MatchCall Inr q show ?thesis by (auto split: sum.splits)
    qed
  qed
qed

subsection \<open>Runs from the invariants\<close>

lemma Train_merge:
  assumes inv: "cache_inv d" and t: "Train isNumber d content ts = Inr (c, d')"
    and p: "peek d (idC c) = Some c0"
  shows "createTemplate (config d) (getContentAsTokens (config d) content) (Tokens c0) =
           Inr (Tokens c)"
  using t
proof (cases rule: Train_cases)
  case (miss c1 c2 c3 rt')
  from inv p have "idC c \<le> clustersCounter d" unfolding cache_inv_def by blast
  with miss(2) show ?thesis by simp
next
  case (hit m c1 tmpl v c2)
  let ?tokens = "getContentAsTokens (config d) content"
  note ts = treeSearch_Inr [OF hit(1) tokens_not_Nil]
  from ts(3) [of m] obtain k where k: "resolve c1 k = Some m" using ts(1) by auto
  have pm: "peek d k = Some m" using k ts(1) by (simp add: peek_def)
  with inv have idm: "idC m = k" unfolding cache_inv_def by blast
  note ap = LogCluster_append_Inr [OF hit(3)]
  have "idC c = k" using ap idm by simp
  with pm p have "c0 = m" by simp
  with hit(2) ap show ?thesis by simp
qed

lemma tokens_maxNodeDepth [simp]:
  "getContentAsTokens (cfg\<lparr>maxNodeDepth := x\<rparr>) content = getContentAsTokens cfg content"
  by (simp add: getContentAsTokens_def)

lemma run_tree_inv:
  assumes "cache_inv d" "tree_inv d" "run isNumber d calls = Inr (rs, d')"
  shows "tree_inv d'"
  using assms
proof (induction calls arbitrary: d rs)
  case Nil
  then show ?case by simp
next
  case (Cons a calls)
  show ?case
  proof (cases a)
    case (TrainCall content ts)
    with Cons.prems(3) obtain c d1 rs1 where
      t: "Train isNumber d content ts = Inr (c, d1)" and r: "run isNumber d1 calls = Inr (rs1, d')"
      by (auto split: sum.splits)
    from Train_step(1) [OF Cons.prems(1) t] Train_tree_inv [OF Cons.prems(1,2) t] r
    show ?thesis by (rule Cons.IH)
  next
    case (MatchCall content)
    with Cons.prems(3) obtain c d1 rs1 where
      t: "Match d content = Inr (c, d1)" and r: "run isNumber d1 calls = Inr (rs1, d')"
      by (auto split: sum.splits)
    from Match_inv [OF t] Cons.prems(1,2) r
    show ?thesis by (intro Cons.IH)
  qed
qed

lemma Train_Inl_kind:
  assumes "Train isNumber d content ts = Inl e"
  shows "e \<noteq> PanicCandidateIndex"
  using assms tokens_not_Nil [of "config d" content]
  by (auto simp: Train_def Let_def split: sum.splits prod.splits option.splits
        dest!: treeSearch_Inl Set_Inl addSeqToPrefixTree_Inl createTemplate_Inl
               LogCluster_append_Inl Get_Inl)

lemma Match_Inl_kind:
  assumes "Match d content = Inl e"
  shows "e \<noteq> PanicCandidateIndex"
  using assms tokens_not_Nil [of "config d" content]
  by (auto simp: Match_def split: sum.splits prod.splits dest!: treeSearch_Inl)

subsection \<open>The fan-out of the tree\<close>










lemma map_of_update_None:
  "map_of al p = None \<Longrightarrow> map_of al k \<noteq> None \<Longrightarrow> map_of (AList.update k v al) p = None"
  by (auto simp: update_conv')













subsection \<open>Claims on the volume of a cluster\<close>

text \<open>
  C2 (code bug). The claim: after any sequence of \<open>Add\<close> calls the buckets are strictly
  increasing in their timestamps, and a timestamp whose bucket lies strictly between the
  first and the last bucket increments the bucket when it is there and is inserted at
  its place otherwise. The source compares \<open>x.Values[i][1]\<close>, the count, with the
  timestamp in the binary search and in the test that follows it. Three calls of \<open>Train\<close>
  on the line \<open>a\<close> at 0 s, 20 s and 10 s leave the buckets 0 s, 20 s, 10 s, which are
  not increasing.
\<close>

theorem C2_Add_breaks_order:
  "New ex_cfg = Inr ex_new \<and>
   (case run isNumberLatin1 ex_new
           [TrainCall ''a'' 0, TrainCall ''a'' 20000000000, TrainCall ''a'' 10000000000] of
      Inl e \<Rightarrow> False
    | Inr (rs, d) \<Rightarrow>
        map (map_option (Values \<circ> Volume)) rs =
          [Some [(0, 1)],
           Some [(0, 1), (20000000000, 1)],
           Some [(0, 1), (20000000000, 1), (10000000000, 1)]] \<and>
        \<not> sorted_wrt (<) (map fst [(0::int, 1::int), (20000000000, 1), (10000000000, 1)]))"
  by (simp add: ex_new_eq) (simp add: eval_defs eval_lines ex_cfg_def ex_new_def)

text \<open>
  C9 (code bug). The claim: a cluster trained with k timestamps has a volume whose
  counts sum to k. In the prepend case of \<open>Volume.Add\<close>, \<open>slices.Grow\<close> leaves the
  length of the slice as it is, so the copy drops the last bucket. Two calls of \<open>Train\<close>
  on the line \<open>a\<close>, at 20 s and then at 0 s, give a cluster of size 2 whose volume sums
  to 1.
\<close>

theorem C9_prepend_loses_bucket:
  "New ex_cfg = Inr ex_new \<and>
   (case run isNumberLatin1 ex_new [TrainCall ''a'' 20000000000, TrainCall ''a'' 0] of
      Inl e \<Rightarrow> False
    | Inr (rs, d) \<Rightarrow>
        map (map_option (\<lambda>c. (idC c, Size c, Values (Volume c), Volume_Matches (Volume c)))) rs =
          [Some (1, 1, [(20000000000, 1)], 1), Some (1, 2, [(0, 1)], 1)])"
  by (simp add: ex_new_eq) (simp add: eval_defs eval_lines ex_cfg_def ex_new_def)

subsection \<open>Claims on the recency order of the cache\<close>

text \<open>
  C1 (code bug). The claim: a call that only tests candidates leaves the recency order
  of the cache as it was. \<open>fastMatch\<close> resolves every candidate with
  \<open>LogClusterCache.Get\<close>, which calls the \<open>Get\<close> of the LRU cache and moves the entry
  to the front; the comment in \<open>fastMatch\<close> says that the read bypasses the eviction
  algorithm. After \<open>Train("a b c")\<close> and \<open>Train("x y z")\<close> cluster 2 is the most
  recently used; \<open>Match("a b c")\<close> returns cluster 1 and leaves cluster 1 the most
  recently used.
\<close>

theorem C1_Match_changes_recency:
  "run isNumberLatin1 ex_new [TrainCall ''a b c'' 0, TrainCall ''x y z'' 0] =
     Inr ([Some ex_c1, Some ex_c2], ex_trained) \<and>
   recency ex_trained = [2, 1] \<and>
   (case Match ex_trained ''a b c'' of
      Inl e \<Rightarrow> False
    | Inr (r, d) \<Rightarrow> r = Some ex_c1 \<and> recency d = [1, 2])"
  by (simp add: ex_trained_eq)
     (simp add: eval_defs eval_lines ex_cfg_def ex_new_def ex_trained_def ex_c1_def ex_c2_def)

text \<open>
  C6 (code bug). The claim: the cluster evicted at capacity is the one least recently
  touched, where an insertion and a successful training match touch a cluster. With
  room for two clusters, after \<open>Train("a b c")\<close> and \<open>Train("x y z")\<close> the least recently
  touched cluster is 1. \<open>Train("a d e")\<close> matches nothing, but \<open>fastMatch\<close> tests
  cluster 1 with \<open>Get\<close> before the insertion, so the insertion of cluster 3 evicts
  cluster 2. This is the defect of C1. The number of live clusters stays at most 2.
\<close>

theorem C6_eviction_not_least_recently_touched:
  "run isNumberLatin1 ex_new [TrainCall ''a b c'' 0, TrainCall ''x y z'' 0] =
     Inr ([Some ex_c1, Some ex_c2], ex_trained) \<and>
   Clusters ex_trained = Inr [ex_c1, ex_c2] \<and>
   (case Train isNumberLatin1 ex_trained ''a d e'' 0 of
      Inl e \<Rightarrow> False
    | Inr (c, d) \<Rightarrow> c = ex_c3 \<and> Clusters d = Inr [ex_c3, ex_c1])"
  by (simp add: ex_trained_eq)
     (simp add: eval_defs eval_lines ex_cfg_def ex_new_def ex_trained_def ex_c1_def ex_c2_def
        ex_c3_def)

subsection \<open>Claims on tokens, lengths and templates\<close>

text \<open>
  C10 (confirmed). Every line, the empty and the blank ones too, has at least one
  token: \<open>strings.Split\<close> returns a list of one element or more. So the token count
  that \<open>treeSearch\<close> and \<open>addSeqToPrefixTree\<close> compare with 0 is not 0, and neither
  \<open>Train\<close> nor \<open>Match\<close> faults on the index \<open>curNode.clusterIDs[0]\<close>, in any state of
  the engine.
\<close>

theorem C10_tokens_never_empty:
  "1 \<le> length (getContentAsTokens cfg content) \<and>
   int (length (getContentAsTokens (config d) content)) \<noteq> 0 \<and>
   Train isNumber d content ts \<noteq> Inl PanicCandidateIndex \<and>
   Match d content \<noteq> Inl PanicCandidateIndex"
  using tokens_not_Nil [of cfg content] tokens_not_Nil [of "config d" content]
    Train_Inl_kind [of isNumber d content ts PanicCandidateIndex]
    Match_Inl_kind [of d content PanicCandidateIndex]
  by (auto simp: Suc_le_eq)

text \<open>
  C4 (confirmed). In an engine that \<open>New\<close> built and a sequence of calls has run on,
  a call of \<open>Train\<close> that returns a cluster which was in the cache returns it with the
  template \<open>createTemplate\<close> computes from the line and the template it had: at each
  position the token of the template where the line agrees with it, the wildcard
  elsewhere. And of two clusters with the same identifier that the calls returned, the
  later has the length of the earlier and the wildcard wherever the earlier has it.
\<close>

theorem C4_merge_generalizes:
  assumes "New cfg = Inr d0" and "run isNumber d0 calls = Inr (rs, d)"
  shows "(\<forall>content ts c d' c0.
            Train isNumber d content ts = Inr (c, d') \<longrightarrow> peek d (idC c) = Some c0 \<longrightarrow>
            createTemplate cfg (getContentAsTokens cfg content) (Tokens c0) = Inr (Tokens c) \<and>
            length (Tokens c) = length (Tokens c0) \<and>
            (\<forall>k < length (Tokens c).
               Tokens c ! k =
                 (if getContentAsTokens cfg content ! k = Tokens c0 ! k then Tokens c0 ! k
                  else ParamString cfg))) \<and>
         (\<forall>i j ci cj k.
            i < j \<longrightarrow> j < length rs \<longrightarrow> rs ! i = Some ci \<longrightarrow> rs ! j = Some cj \<longrightarrow>
            idC ci = idC cj \<longrightarrow> k < length (Tokens ci) \<longrightarrow> Tokens ci ! k = ParamString cfg \<longrightarrow>
            length (Tokens cj) = length (Tokens ci) \<and> Tokens cj ! k = ParamString cfg)"
proof (cases "0 \<le> MaxClusters cfg")
  case True
  note inv0 = New_inv [OF assms(1) True]
  note h = run_history [OF inv0(1) assms(2)]
  from New_config [OF assms(1)] have cfg0: "config d0 = cfg\<lparr>maxNodeDepth := LogClusterDepth cfg - 2\<rparr>"
    by simp
  from h have inv: "cache_inv d" and cfgd: "config d = config d0" by simp_all
  have p: "ParamString (config d0) = ParamString cfg" using cfg0 by simp
  have pd: "ParamString (config d) = ParamString cfg" using cfgd cfg0 by simp
  have ct: "createTemplate (config d) s1 s2 = createTemplate cfg s1 s2" for s1 s2
    unfolding createTemplate_def pd ..
  have tk: "getContentAsTokens (config d) content = getContentAsTokens cfg content" for content
    using cfgd cfg0 by simp
  have A: "createTemplate cfg (getContentAsTokens cfg content) (Tokens c0) = Inr (Tokens c) \<and>
      length (Tokens c) = length (Tokens c0) \<and>
      (\<forall>k < length (Tokens c).
         Tokens c ! k =
           (if getContentAsTokens cfg content ! k = Tokens c0 ! k then Tokens c0 ! k
            else ParamString cfg))"
    if t: "Train isNumber d content ts = Inr (c, d')" and pk: "peek d (idC c) = Some c0"
    for content ts c d' c0
  proof -
    from Train_merge [OF inv t pk]
    have m: "createTemplate cfg (getContentAsTokens cfg content) (Tokens c0) = Inr (Tokens c)"
      by (simp add: ct tk)
    from createTemplate_Inr [OF m] m show ?thesis by simp
  qed
  have B: "length (Tokens cj) = length (Tokens ci) \<and> Tokens cj ! k = ParamString cfg"
    if "i < j" "j < length rs" "rs ! i = Some ci" "rs ! j = Some cj" "idC ci = idC cj"
       "k < length (Tokens ci)" "Tokens ci ! k = ParamString cfg"
    for i j ci cj k
  proof -
    from h that(1-5) have "generalizes (ParamString (config d0)) (Tokens ci) (Tokens cj)"
      by blast
    with p have g: "generalizes (ParamString cfg) (Tokens ci) (Tokens cj)" by simp
    from generalizes_length [OF g] generalizes_nth [OF g that(6,7)] show ?thesis by simp
  qed
  from A B show ?thesis by blast
next
  case False
  then have neg: "MaxClusters cfg < 0" by simp
  note b = New_broken [OF assms(1) neg]
  from broken_run [of d0 isNumber calls] b assms(2)
  have rs: "rs = replicate (length calls) None" and d: "d = d0" by auto
  have "Train isNumber d content ts \<noteq> Inr (c, d')" for content ts c d'
    using broken_Train [of d isNumber content ts] b d by simp
  moreover have "rs ! j \<noteq> Some cj" if "j < length rs" for j cj
    using that rs by simp
  ultimately show ?thesis by blast
qed

theorem C4_merge_generalizes_witness:
  "New ex_cfg = Inr ex_new \<and>
   run isNumberLatin1 ex_new ex_merge_calls =
     Inr ([Some ex_c1, Some ex_m1, Some ex_m2, Some ex_m3], ex_merged) \<and>
   idC ex_m1 = idC ex_m3 \<and> Tokens ex_m1 ! 2 = ParamString ex_cfg \<and>
   Tokens ex_m3 ! 2 = ParamString ex_cfg \<and>
   Train isNumberLatin1 ex_merged ''a b e'' 0 =
     Inr (ex_m4, ex_merged\<lparr>idToCluster :=
                   Some \<lparr>size_LRU = 2, evictList = [(1, ex_m4), (2, ex_m2)]\<rparr>\<rparr>) \<and>
   peek ex_merged (idC ex_m4) = Some ex_m3 \<and>
   createTemplate ex_cfg (getContentAsTokens ex_cfg ''a b e'') (Tokens ex_m3) =
     Inr (Tokens ex_m4) \<and>
   Tokens ex_m3 = [''a'', ''b'', ''<*>''] \<and> Tokens ex_m4 = [''a'', ''b'', ''<*>'']"
proof -
  note c4 = C4_merge_generalizes [OF ex_new_eq ex_merged_eq]
  have t: "Train isNumberLatin1 ex_merged ''a b e'' 0 =
     Inr (ex_m4, ex_merged\<lparr>idToCluster :=
                   Some \<lparr>size_LRU = 2, evictList = [(1, ex_m4), (2, ex_m2)]\<rparr>\<rparr>)"
    by (simp add: eval_defs eval_lines tokens_a_b_e ex_cfg_def ex_new_def ex_merged_def ex_m2_def
          ex_m3_def ex_m4_def)
  have p: "peek ex_merged (idC ex_m4) = Some ex_m3"
    by (simp add: peek_def resolve_def LRU_Peek_def ex_merged_def ex_m4_def)
  from c4 t p
  have m: "createTemplate ex_cfg (getContentAsTokens ex_cfg ''a b e'') (Tokens ex_m3) =
     Inr (Tokens ex_m4)"
    by blast
  from c4
  have "1 < (3::nat) \<longrightarrow>
        3 < length [Some ex_c1, Some ex_m1, Some ex_m2, Some ex_m3] \<longrightarrow>
        [Some ex_c1, Some ex_m1, Some ex_m2, Some ex_m3] ! 1 = Some ex_m1 \<longrightarrow>
        [Some ex_c1, Some ex_m1, Some ex_m2, Some ex_m3] ! 3 = Some ex_m3 \<longrightarrow>
        idC ex_m1 = idC ex_m3 \<longrightarrow> 2 < length (Tokens ex_m1) \<longrightarrow>
        Tokens ex_m1 ! 2 = ParamString ex_cfg \<longrightarrow>
        length (Tokens ex_m3) = length (Tokens ex_m1) \<and> Tokens ex_m3 ! 2 = ParamString ex_cfg"
    by blast
  then have w: "Tokens ex_m3 ! 2 = ParamString ex_cfg"
    by (simp add: ex_m1_def ex_m3_def ex_cfg_def DefaultConfig_def)
  from t p m w show ?thesis
    by (simp add: ex_new_eq ex_merged_eq)
       (simp add: ex_m1_def ex_m3_def ex_m4_def ex_cfg_def DefaultConfig_def)
qed

text \<open>
  C5 (confirmed). A sequence of \<open>Train\<close> and \<open>Match\<close> calls on an engine that \<open>New\<close>
  built never reaches the panic of \<open>getSeqDistance\<close> and \<open>createTemplate\<close> on sequences
  of different lengths. When the calls return, every live cluster below the child of
  the root for a token count has a template of that length (\<open>tree_inv\<close>), a cluster
  that a call returns has as many tokens as the line of the call, and two calls that
  return clusters with the same identifier have lines with the same number of tokens.
\<close>

theorem C5_equal_lengths:
  assumes "New cfg = Inr d0"
  shows "run isNumber d0 calls \<noteq> Inl PanicSeqLength \<and>
         (\<forall>rs d. run isNumber d0 calls = Inr (rs, d) \<longrightarrow>
            tree_inv d \<and>
            (\<forall>j cj. j < length rs \<longrightarrow> rs ! j = Some cj \<longrightarrow>
               length (Tokens cj) = length (getContentAsTokens cfg (callLine (calls ! j)))) \<and>
            (\<forall>i j ci cj. i < length rs \<longrightarrow> j < length rs \<longrightarrow>
               rs ! i = Some ci \<longrightarrow> rs ! j = Some cj \<longrightarrow> idC ci = idC cj \<longrightarrow>
               length (getContentAsTokens cfg (callLine (calls ! i))) =
               length (getContentAsTokens cfg (callLine (calls ! j)))))"
proof (cases "0 \<le> MaxClusters cfg")
  case True
  note inv0 = New_inv [OF assms True]
  from New_config [OF assms] have cfg0: "config d0 = cfg\<lparr>maxNodeDepth := LogClusterDepth cfg - 2\<rparr>"
    by simp
  have tk: "getContentAsTokens (config d0) content = getContentAsTokens cfg content" for content
    using cfg0 by simp
  have R: "tree_inv d \<and>
      (\<forall>j cj. j < length rs \<longrightarrow> rs ! j = Some cj \<longrightarrow>
         length (Tokens cj) = length (getContentAsTokens cfg (callLine (calls ! j)))) \<and>
      (\<forall>i j ci cj. i < length rs \<longrightarrow> j < length rs \<longrightarrow>
         rs ! i = Some ci \<longrightarrow> rs ! j = Some cj \<longrightarrow> idC ci = idC cj \<longrightarrow>
         length (getContentAsTokens cfg (callLine (calls ! i))) =
         length (getContentAsTokens cfg (callLine (calls ! j))))"
    if r: "run isNumber d0 calls = Inr (rs, d)" for rs d
  proof -
    note h = run_history [OF inv0(1) r]
    have len: "length (Tokens cj) = length (getContentAsTokens cfg (callLine (calls ! j)))"
      if "j < length rs" "rs ! j = Some cj" for j cj
      using h that tk by simp
    have lt: "length (Tokens ci) = length (Tokens cj)"
      if "i < j" "j < length rs" "rs ! i = Some ci" "rs ! j = Some cj" "idC ci = idC cj"
      for i j ci cj
    proof -
      from h that have "generalizes (ParamString (config d0)) (Tokens ci) (Tokens cj)" by blast
      from generalizes_length [OF this] show ?thesis by simp
    qed
    have eq: "length (Tokens ci) = length (Tokens cj)"
      if "i < length rs" "j < length rs" "rs ! i = Some ci" "rs ! j = Some cj" "idC ci = idC cj"
      for i j ci cj
    proof -
      consider "i < j" | "j < i" | "i = j" by linarith
      then show ?thesis
      proof cases
        case 1
        from lt [OF 1 that(2,3,4,5)] show ?thesis .
      next
        case 2
        from lt [OF 2 that(1,4,3)] that(5) show ?thesis by simp
      next
        case 3
        with that show ?thesis by simp
      qed
    qed
    have "length (getContentAsTokens cfg (callLine (calls ! i))) =
          length (getContentAsTokens cfg (callLine (calls ! j)))"
      if "i < length rs" "j < length rs" "rs ! i = Some ci" "rs ! j = Some cj" "idC ci = idC cj"
      for i j ci cj
      using eq [OF that] len [OF that(1,3)] len [OF that(2,4)] by simp
    with len run_tree_inv [OF inv0 r] show ?thesis by blast
  qed
  from run_no_seq_panic [OF inv0] R show ?thesis by blast
next
  case False
  then have neg: "MaxClusters cfg < 0" by simp
  note b = New_broken [OF assms neg]
  have t0: "tree_inv d0" using b by (simp add: tree_inv_def)
  from broken_run [OF b [THEN conjunct1] b [THEN conjunct2], of isNumber calls]
  consider "run isNumber d0 calls = Inl PanicNilCache"
    | "run isNumber d0 calls = Inr (replicate (length calls) None, d0)" by blast
  then show ?thesis
  proof cases
    case 1
    then show ?thesis by simp
  next
    case 2
    with t0 show ?thesis by simp
  qed
qed

theorem C5_equal_lengths_witness:
  "New ex_cfg = Inr ex_new \<and>
   run isNumberLatin1 ex_new ex_merge_calls \<noteq> Inl PanicSeqLength \<and>
   run isNumberLatin1 ex_new ex_merge_calls =
     Inr ([Some ex_c1, Some ex_m1, Some ex_m2, Some ex_m3], ex_merged) \<and>
   tree_inv ex_merged \<and>
   map (\<lambda>a. length (getContentAsTokens ex_cfg (callLine a))) ex_merge_calls = [3, 3, 1, 3] \<and>
   map idC [ex_c1, ex_m1, ex_m2, ex_m3] = [1, 1, 2, 1] \<and>
   map (length \<circ> Tokens) [ex_c1, ex_m1, ex_m2, ex_m3] = [3, 3, 1, 3]"
proof -
  from C5_equal_lengths [OF ex_new_eq, of isNumberLatin1 ex_merge_calls] ex_merged_eq
  have "run isNumberLatin1 ex_new ex_merge_calls \<noteq> Inl PanicSeqLength \<and> tree_inv ex_merged"
    by blast
  then show ?thesis
    by (simp add: ex_new_eq ex_merged_eq)
       (simp add: eval_lines tokens_a_b_d ex_cfg_def ex_c1_def ex_m1_def ex_m2_def ex_m3_def
          ex_merge_calls_def DefaultConfig_def)
qed

subsection \<open>Claims on the insertion into the tree\<close>



end
